theory Spec2Isabelle
  imports Main "HOL-Library.AList" "HOL-Library.Char_ord" "HOL-Library.List_Lexorder"
    "HOL-Library.Multiset" "HOL-Library.Sublist"
begin

section \<open>The raptor migrator: data model\<close>

text \<open>
  The Go package \<open>raptor\<close> (core) holds an ordered list of migrations, a schema
  executor and an in-memory history ledger. A migration is an interface value with the
  methods \<open>Name\<close>, \<open>Up\<close> and \<open>Down\<close>; the last two take the schema and return an
  error or nil. The migrator never looks inside the schema, so the schema (and whatever
  else a migration's body touches) is a state of an arbitrary type \<open>'w\<close> here: \<open>Up\<close>
  and \<open>Down\<close> take that state and return the error, if any (its message, the cause),
  with the new state.

  Go's \<open>int\<close> is 64 bits wide. The only arithmetic on batch numbers is
  \<open>NextBatch++\<close>, once per successful \<open>Migrate\<close>, starting from 1, so the counter is
  an unbounded \<open>int\<close> here: reaching the wrap-around takes \<open>2^63 - 1\<close> successful calls.

  \<open>History\<close> is a Go map from names to batch numbers. The code iterates over it (in
  \<open>GetRanMigrations\<close>, \<open>GetLastBatch\<close> and \<open>Rollback\<close>), so it is an association
  list here, written with \<open>AList.update\<close> and read with \<open>map_of\<close>, erased from with
  \<open>AList.delete\<close>. Go's iteration order is unspecified; each of the three loops
  computes something that does not depend on it (a sorted list, a maximum, a set).
  A Go map holds a name once; the list of a fresh migrator is empty and the two
  operations keep the names of a list distinct (\<open>distinct_steps\<close> below). The
  statements that need distinct names in the ledger say so; the others hold of any
  list.
\<close>

type_synonym cause = string

record 'w Migration =
  Name :: string
  Up :: "'w \<Rightarrow> cause option \<times> 'w"
  Down :: "'w \<Rightarrow> cause option \<times> 'w"

record SimulatedDB =
  History :: "(string \<times> int) list"
  NextBatch :: int

record 'w Migrator =
  migrations :: "'w Migration list"
  schema :: 'w
  db :: SimulatedDB

text \<open>
  The errors \<open>Migrate\<close> and \<open>Rollback\<close> return are built by \<open>fmt.Errorf\<close> with the
  verb \<open>%w\<close>: a message holding the migration's name and the cause's message, wrapping
  the cause.
\<close>

datatype error = MigrateError string cause | RollbackError string cause

fun Error :: "error \<Rightarrow> string" where
  "Error (MigrateError name err) = ''failed to run migration '' @ name @ '': '' @ err"
| "Error (RollbackError name err) = ''failed to rollback migration '' @ name @ '': '' @ err"

fun Unwrap :: "error \<Rightarrow> cause" where
  "Unwrap (MigrateError name err) = err"
| "Unwrap (RollbackError name err) = err"

text \<open>
  The calls made on the migrations' \<open>Up\<close> and \<open>Down\<close> methods, in the order they are
  made. \<open>Migrate\<close> and \<open>Rollback\<close> return them beside the error, so that the claims
  on which calls are made, and in which order, can be stated.
\<close>

datatype call = UpCall string | DownCall string

section \<open>The ledger\<close>

definition NewSimulatedDB :: SimulatedDB where
  "NewSimulatedDB = \<lparr>History = [], NextBatch = 1\<rparr>"

definition GetRanMigrations :: "SimulatedDB \<Rightarrow> string list" where
  "GetRanMigrations s = sort (map fst (History s))"

definition GetLastBatch :: "SimulatedDB \<Rightarrow> int" where
  "GetLastBatch s =
     fold (\<lambda>(name, batch) maxBatch. if batch > maxBatch then batch else maxBatch)
       (History s) 0"

section \<open>The migrator\<close>

text \<open>
  \<open>sort.Slice\<close> orders the migrations by name. It is not a stable sort, so the order
  among migrations of one name is unspecified in Go; \<open>sort_key\<close> keeps theirs. The
  theorems below are about any migrator whose list is sorted by name.
\<close>

definition NewMigrator :: "'w Migration list \<Rightarrow> 'w \<Rightarrow> 'w Migrator" where
  "NewMigrator migs s = \<lparr>migrations = sort_key Name migs, schema = s, db = NewSimulatedDB\<rparr>"

text \<open>The loop of \<open>Migrate\<close> over the pending migrations.\<close>

fun Migrate_loop ::
  "int \<Rightarrow> 'w Migration list \<Rightarrow> 'w \<Rightarrow> SimulatedDB \<Rightarrow> error option \<times> call list \<times> 'w \<times> SimulatedDB"
where
  "Migrate_loop batch [] s d = (None, [], s, d)"
| "Migrate_loop batch (mig # pending) s d =
     (case Up mig s of
        (Some err, s') \<Rightarrow> (Some (MigrateError (Name mig) err), [UpCall (Name mig)], s', d)
      | (None, s') \<Rightarrow>
          (case Migrate_loop batch pending s'
                  (d\<lparr>History := AList.update (Name mig) batch (History d)\<rparr>) of
             (r, calls, s'', d') \<Rightarrow> (r, UpCall (Name mig) # calls, s'', d')))"

definition Migrate :: "'w Migrator \<Rightarrow> error option \<times> call list \<times> 'w Migrator" where
  "Migrate m =
     (let ranMigrations = GetRanMigrations (db m);
          pending = filter (\<lambda>mig. Name mig \<notin> set ranMigrations) (migrations m)
      in if length pending = 0 then (None, [], m)
         else
           (let batch = NextBatch (db m) in
            case Migrate_loop batch pending (schema m) (db m) of
              (Some e, calls, s', d') \<Rightarrow> (Some e, calls, m\<lparr>schema := s', db := d'\<rparr>)
            | (None, calls, s', d') \<Rightarrow>
                (None, calls, m\<lparr>schema := s', db := d'\<lparr>NextBatch := NextBatch d' + 1\<rparr>\<rparr>)))"

text \<open>The loop of \<open>Rollback\<close> over the migrations to revert.\<close>

fun Rollback_loop ::
  "'w Migration list \<Rightarrow> 'w \<Rightarrow> SimulatedDB \<Rightarrow> error option \<times> call list \<times> 'w \<times> SimulatedDB"
where
  "Rollback_loop [] s d = (None, [], s, d)"
| "Rollback_loop (mig # migrationsToRevert) s d =
     (case Down mig s of
        (Some err, s') \<Rightarrow> (Some (RollbackError (Name mig) err), [DownCall (Name mig)], s', d)
      | (None, s') \<Rightarrow>
          (case Rollback_loop migrationsToRevert s'
                  (d\<lparr>History := AList.delete (Name mig) (History d)\<rparr>) of
             (r, calls, s'', d') \<Rightarrow> (r, DownCall (Name mig) # calls, s'', d')))"

definition Rollback :: "'w Migrator \<Rightarrow> error option \<times> call list \<times> 'w Migrator" where
  "Rollback m =
     (let batchToRollback = GetLastBatch (db m)
      in if batchToRollback = 0 then (None, [], m)
         else
           (let migrationsInBatch =
                  map fst (filter (\<lambda>(name, batch). batch = batchToRollback) (History (db m)));
                migrationsToRevert =
                  filter (\<lambda>mig. Name mig \<in> set migrationsInBatch) (rev (migrations m))
            in if length migrationsToRevert = 0 then (None, [], m)
               else
                 (case Rollback_loop migrationsToRevert (schema m) (db m) of
                    (Some e, calls, s', d') \<Rightarrow> (Some e, calls, m\<lparr>schema := s', db := d'\<rparr>)
                  | (None, calls, s', d') \<Rightarrow>
                      (None, calls, m\<lparr>schema := s', db := d'\<lparr>NextBatch := batchToRollback\<rparr>\<rparr>))))"

text \<open>
  \<open>Status\<close> prints one line for each migration, and a closing line. The lines are
  returned here (the heading and the rules are left out), with the migrator as the
  method leaves it.
\<close>

datatype status_line = Ran string int | Pending string | FullyUpToDate | NoneRunYet

definition Status :: "'w Migrator \<Rightarrow> status_line list \<times> 'w Migrator" where
  "Status m =
     (let ranMigrations = GetRanMigrations (db m);
          rows = map (\<lambda>mig. case map_of (History (db m)) (Name mig) of
                               Some batch \<Rightarrow> Ran (Name mig) batch
                             | None \<Rightarrow> Pending (Name mig)) (migrations m);
          pendingCount = length (filter (\<lambda>mig. map_of (History (db m)) (Name mig) = None)
                                   (migrations m))
      in (rows @
            (if pendingCount = 0 \<and> length ranMigrations > 0 then [FullyUpToDate]
             else if length ranMigrations = 0 then [NoneRunYet] else []),
          m))"

section \<open>Vocabulary of the statements\<close>

text \<open>
  The migrations \<open>Migrate\<close> finds pending: those of the list, in its order, whose name
  has no entry in the ledger.
\<close>

definition pending_of :: "'w Migrator \<Rightarrow> 'w Migration list" where
  "pending_of m = filter (\<lambda>mig. Name mig \<notin> fst ` set (History (db m))) (migrations m)"

text \<open>
  The migrations \<open>Rollback\<close> reverts, in its order: those of the list, from the last to
  the first, whose name has an entry with the highest batch number.
\<close>

definition to_revert :: "'w Migrator \<Rightarrow> 'w Migration list" where
  "to_revert m =
     filter (\<lambda>mig. (Name mig, GetLastBatch (db m)) \<in> set (History (db m))) (rev (migrations m))"

text \<open>
  What the executor does when the \<open>Up\<close> (or \<open>Down\<close>) methods of a list of migrations
  are called one after the other from a state \<open>s\<close>: whether every call succeeds, and
  the state the calls leave.
\<close>

fun Ups_succeed :: "'w Migration list \<Rightarrow> 'w \<Rightarrow> bool" where
  "Ups_succeed [] s = True"
| "Ups_succeed (mig # migs) s = (fst (Up mig s) = None \<and> Ups_succeed migs (snd (Up mig s)))"

fun after_Ups :: "'w Migration list \<Rightarrow> 'w \<Rightarrow> 'w" where
  "after_Ups [] s = s"
| "after_Ups (mig # migs) s = after_Ups migs (snd (Up mig s))"

fun Downs_succeed :: "'w Migration list \<Rightarrow> 'w \<Rightarrow> bool" where
  "Downs_succeed [] s = True"
| "Downs_succeed (mig # migs) s =
     (fst (Down mig s) = None \<and> Downs_succeed migs (snd (Down mig s)))"

fun after_Downs :: "'w Migration list \<Rightarrow> 'w \<Rightarrow> 'w" where
  "after_Downs [] s = s"
| "after_Downs (mig # migs) s = after_Downs migs (snd (Down mig s))"

text \<open>The ledger after recording, or erasing, each migration of a list.\<close>

definition record_all ::
  "int \<Rightarrow> 'w Migration list \<Rightarrow> (string \<times> int) list \<Rightarrow> (string \<times> int) list" where
  "record_all batch migs h = fold (\<lambda>mig. AList.update (Name mig) batch) migs h"

definition erase_all :: "'w Migration list \<Rightarrow> (string \<times> int) list \<Rightarrow> (string \<times> int) list" where
  "erase_all migs h = fold (\<lambda>mig. AList.delete (Name mig)) migs h"

text \<open>
  The states a migrator goes through from a state \<open>m0\<close>: any sequence of \<open>Migrate\<close>
  and \<open>Rollback\<close> calls, whatever they return, with the executor's state changing in
  any way between two calls (a database repaired by hand, say). \<open>Up\<close> and \<open>Down\<close>
  are any functions of that state, so each call of theirs may succeed or fail.
\<close>

inductive steps :: "'w Migrator \<Rightarrow> 'w Migrator \<Rightarrow> bool" for m0 :: "'w Migrator" where
  start: "steps m0 m0"
| migrate: "steps m0 m \<Longrightarrow> Migrate m = (r, calls, m') \<Longrightarrow> steps m0 m'"
| rollback: "steps m0 m \<Longrightarrow> Rollback m = (r, calls, m') \<Longrightarrow> steps m0 m'"
| executor: "steps m0 m \<Longrightarrow> steps m0 (m\<lparr>schema := s\<rparr>)"

text \<open>
  Migrations for the examples: the executor's state is the list of the calls that fail,
  and a failing call returns the cause \<open>''no such table''\<close>.
\<close>

definition example_migration :: "string \<Rightarrow> call list Migration" where
  "example_migration n =
     \<lparr>Name = n,
      Up = (\<lambda>w. if UpCall n \<in> set w then (Some ''no such table'', w) else (None, w)),
      Down = (\<lambda>w. if DownCall n \<in> set w then (Some ''no such table'', w) else (None, w))\<rparr>"

text \<open>
  The bounds on the batch numbers: the counter is at least 1 and every recorded batch
  number lies between 1 and the counter.
\<close>

definition bounded :: "SimulatedDB \<Rightarrow> bool" where
  "bounded d = (1 \<le> NextBatch d \<and> (\<forall>(n, b) \<in> set (History d). 1 \<le> b \<and> b \<le> NextBatch d))"

text \<open>
  The three names of the specification's order example, as they are registered and as
  \<open>NewMigrator\<close> sorts them, and a migrator over them with a given executor state,
  ledger and counter.
\<close>

definition example_migrations :: "call list Migration list" where
  "example_migrations = map example_migration [''003_x'', ''001_a'', ''002_b'']"

definition sorted_examples :: "call list Migration list" where
  "sorted_examples = map example_migration [''001_a'', ''002_b'', ''003_x'']"

definition example_state :: "call list \<Rightarrow> (string \<times> int) list \<Rightarrow> int \<Rightarrow> call list Migrator" where
  "example_state w h n =
     \<lparr>migrations = sorted_examples, schema = w, db = \<lparr>History = h, NextBatch = n\<rparr>\<rparr>"

text \<open>
  What holds of the ledger in every state reached from a fresh migrator: every entry is
  under a registered name, the counter is not below the highest batch number, and it is
  above it when the names are distinct and nothing is pending.
\<close>

definition consistent :: "'w Migrator \<Rightarrow> bool" where
  "consistent m =
     (fst ` set (History (db m)) \<subseteq> Name ` set (migrations m) \<and>
      GetLastBatch (db m) \<le> NextBatch (db m) \<and>
      (distinct (map Name (migrations m)) \<and> pending_of m = [] \<longrightarrow>
         GetLastBatch (db m) < NextBatch (db m)))"

text \<open>
  An entry under an unregistered name, with the entries of a list \<open>low\<close> that are
  under a lower batch number, all in a ledger whose names are distinct.
\<close>

definition pinned :: "string \<Rightarrow> int \<Rightarrow> (string \<times> int) list \<Rightarrow> 'w Migrator \<Rightarrow> bool" where
  "pinned orphan t low m =
     (distinct (map fst (History (db m))) \<and> orphan \<notin> Name ` set (migrations m) \<and>
      (orphan, t) \<in> set (History (db m)) \<and>
      (\<forall>(n, b) \<in> set low. b < t \<longrightarrow> (n, b) \<in> set (History (db m))))"

section \<open>The highest batch number\<close>

lemma fold_max_eq:
  "fold (\<lambda>(name, batch) maxBatch. if batch > maxBatch then batch else maxBatch) h acc
     = Max (insert (acc::int) (snd ` set h))"
proof (induction h arbitrary: acc)
  case Nil show ?case by simp
next
  case (Cons x h)
  obtain n b where x: "x = (n, b)" by (cases x)
  have "Max (insert (if acc < b then b else acc) (snd ` set h)) = Max (insert acc (insert b (snd ` set h)))"
    by (cases "snd ` set h = {}") (auto simp: max_def)
  then show ?case using Cons.IH [of "if acc < b then b else acc"] by (simp add: x)
qed

lemma GetLastBatch_Max: "GetLastBatch d = Max (insert 0 (snd ` set (History d)))"
  by (simp add: GetLastBatch_def fold_max_eq)

lemma GetLastBatch_nonneg: "0 \<le> GetLastBatch d"
  by (simp add: GetLastBatch_Max)

lemma GetLastBatch_ge: "(n, b) \<in> set (History d) \<Longrightarrow> b \<le> GetLastBatch d"
  unfolding GetLastBatch_Max by (rule Max_ge) force+

lemma GetLastBatch_in: "GetLastBatch d \<noteq> 0 \<Longrightarrow> \<exists>n. (n, GetLastBatch d) \<in> set (History d)"
proof -
  assume a: "GetLastBatch d \<noteq> 0"
  have "Max (insert 0 (snd ` set (History d))) \<in> insert 0 (snd ` set (History d))"
    by (rule Max_in) auto
  with a show ?thesis by (auto simp: GetLastBatch_Max)
qed

lemma GetLastBatch_less: "0 < k \<Longrightarrow> \<forall>(n, b) \<in> set (History d). b < k \<Longrightarrow> GetLastBatch d < k"
  unfolding GetLastBatch_Max by (subst Max_less_iff) auto

lemma GetLastBatch_empty: "History d = [] \<Longrightarrow> GetLastBatch d = 0"
  by (simp add: GetLastBatch_def)

section \<open>The two loops\<close>

lemma record_all_simps [simp]:
  "record_all b [] h = h"
  "record_all b (mig # migs) h = record_all b migs (AList.update (Name mig) b h)"
  by (simp_all add: record_all_def)

lemma erase_all_simps [simp]:
  "erase_all [] h = h"
  "erase_all (mig # migs) h = erase_all migs (AList.delete (Name mig) h)"
  by (simp_all add: erase_all_def)

lemma Migrate_loop_succeed:
  "Ups_succeed ps s \<Longrightarrow>
   Migrate_loop b ps s d =
     (None, map (\<lambda>mig. UpCall (Name mig)) ps, after_Ups ps s,
      d\<lparr>History := record_all b ps (History d)\<rparr>)"
proof (induction ps arbitrary: s d)
  case Nil
  show ?case by simp
next
  case (Cons mig ps)
  obtain s' where up: "Up mig s = (None, s')"
    using Cons.prems by (cases "Up mig s") auto
  have "Ups_succeed ps s'" using Cons.prems up by simp
  from Cons.IH [OF this] show ?case using up by simp
qed

lemma Migrate_loop_fail:
  "Ups_succeed as s \<Longrightarrow> Up f (after_Ups as s) = (Some c, s') \<Longrightarrow>
   Migrate_loop b (as @ f # rest) s d =
     (Some (MigrateError (Name f) c), map (\<lambda>mig. UpCall (Name mig)) (as @ [f]), s',
      d\<lparr>History := record_all b as (History d)\<rparr>)"
proof (induction as arbitrary: s d)
  case Nil
  then show ?case by simp
next
  case (Cons mig as)
  obtain s1 where up: "Up mig s = (None, s1)"
    using Cons.prems(1) by (cases "Up mig s") auto
  have "Ups_succeed as s1" "Up f (after_Ups as s1) = (Some c, s')"
    using Cons.prems up by simp_all
  from Cons.IH [OF this] show ?case using up by simp
qed

lemma Ups_cases:
  "Ups_succeed ps s \<or>
   (\<exists>as f rest c. ps = as @ f # rest \<and> Ups_succeed as s \<and> fst (Up f (after_Ups as s)) = Some c)"
proof (induction ps arbitrary: s)
  case Nil
  show ?case by simp
next
  case (Cons mig ps)
  show ?case
  proof (cases "fst (Up mig s)")
    case (Some c)
    then have "mig # ps = [] @ mig # ps \<and> Ups_succeed [] s \<and> fst (Up mig (after_Ups [] s)) = Some c"
      by simp
    then show ?thesis by blast
  next
    case None
    from Cons.IH [of "snd (Up mig s)"] show ?thesis
    proof
      assume "Ups_succeed ps (snd (Up mig s))"
      then show ?thesis using None by simp
    next
      assume "\<exists>as f rest c. ps = as @ f # rest \<and> Ups_succeed as (snd (Up mig s)) \<and>
                fst (Up f (after_Ups as (snd (Up mig s)))) = Some c"
      then obtain as f rest c where "ps = as @ f # rest" "Ups_succeed as (snd (Up mig s))"
        "fst (Up f (after_Ups as (snd (Up mig s)))) = Some c" by blast
      then have "mig # ps = (mig # as) @ f # rest \<and> Ups_succeed (mig # as) s \<and>
                 fst (Up f (after_Ups (mig # as) s)) = Some c"
        using None by simp
      then show ?thesis by blast
    qed
  qed
qed

lemma Rollback_loop_succeed:
  "Downs_succeed ps s \<Longrightarrow>
   Rollback_loop ps s d =
     (None, map (\<lambda>mig. DownCall (Name mig)) ps, after_Downs ps s,
      d\<lparr>History := erase_all ps (History d)\<rparr>)"
proof (induction ps arbitrary: s d)
  case Nil
  show ?case by simp
next
  case (Cons mig ps)
  obtain s' where down: "Down mig s = (None, s')"
    using Cons.prems by (cases "Down mig s") auto
  have "Downs_succeed ps s'" using Cons.prems down by simp
  from Cons.IH [OF this] show ?case using down by simp
qed

lemma Rollback_loop_fail:
  "Downs_succeed as s \<Longrightarrow> Down f (after_Downs as s) = (Some c, s') \<Longrightarrow>
   Rollback_loop (as @ f # rest) s d =
     (Some (RollbackError (Name f) c), map (\<lambda>mig. DownCall (Name mig)) (as @ [f]), s',
      d\<lparr>History := erase_all as (History d)\<rparr>)"
proof (induction as arbitrary: s d)
  case Nil
  then show ?case by simp
next
  case (Cons mig as)
  obtain s1 where down: "Down mig s = (None, s1)"
    using Cons.prems(1) by (cases "Down mig s") auto
  have "Downs_succeed as s1" "Down f (after_Downs as s1) = (Some c, s')"
    using Cons.prems down by simp_all
  from Cons.IH [OF this] show ?case using down by simp
qed

lemma Downs_cases:
  "Downs_succeed ps s \<or>
   (\<exists>as f rest c. ps = as @ f # rest \<and> Downs_succeed as s \<and> fst (Down f (after_Downs as s)) = Some c)"
proof (induction ps arbitrary: s)
  case Nil
  show ?case by simp
next
  case (Cons mig ps)
  show ?case
  proof (cases "fst (Down mig s)")
    case (Some c)
    then have "mig # ps = [] @ mig # ps \<and> Downs_succeed [] s \<and> fst (Down mig (after_Downs [] s)) = Some c"
      by simp
    then show ?thesis by blast
  next
    case None
    from Cons.IH [of "snd (Down mig s)"] show ?thesis
    proof
      assume "Downs_succeed ps (snd (Down mig s))"
      then show ?thesis using None by simp
    next
      assume "\<exists>as f rest c. ps = as @ f # rest \<and> Downs_succeed as (snd (Down mig s)) \<and>
                fst (Down f (after_Downs as (snd (Down mig s)))) = Some c"
      then obtain as f rest c where "ps = as @ f # rest" "Downs_succeed as (snd (Down mig s))"
        "fst (Down f (after_Downs as (snd (Down mig s)))) = Some c" by blast
      then have "mig # ps = (mig # as) @ f # rest \<and> Downs_succeed (mig # as) s \<and>
                 fst (Down f (after_Downs (mig # as) s)) = Some c"
        using None by simp
      then show ?thesis by blast
    qed
  qed
qed

lemma map_of_record_all:
  "map_of (record_all b ps h) n = (if n \<in> Name ` set ps then Some b else map_of h n)"
  by (induction ps arbitrary: h) (auto simp: update_conv')

lemma keys_record_all: "fst ` set (record_all b ps h) = fst ` set h \<union> Name ` set ps"
  by (induction ps arbitrary: h) (auto simp: dom_update)

lemma set_update_subset: "set (AList.update k v h) \<subseteq> insert (k, v) (set h)"
  by (induction h) auto

lemma set_record_all_subset:
  "set (record_all b ps h) \<subseteq> set h \<union> (\<lambda>mig. (Name mig, b)) ` set ps"
proof (induction ps arbitrary: h)
  case Nil show ?case by simp
next
  case (Cons mig ps)
  show ?case using Cons.IH [of "AList.update (Name mig) b h"] set_update_subset [of "Name mig" b h]
    by auto
qed

lemma erase_all_filter: "erase_all ps h = filter (\<lambda>(n, b). n \<notin> Name ` set ps) h"
proof (induction ps arbitrary: h)
  case Nil show ?case by simp
next
  case (Cons mig ps)
  show ?case by (simp add: Cons.IH AList.delete_eq) (rule filter_cong, auto)
qed

lemma filter_update_out:
  "k \<in> S \<Longrightarrow> filter (\<lambda>(n, b). n \<notin> S) (AList.update k v h) = filter (\<lambda>(n, b). n \<notin> S) h"
  by (induction h) auto

lemma filter_record_all:
  "filter (\<lambda>(n, b). n \<notin> Name ` set ps \<union> S) (record_all b ps h) = filter (\<lambda>(n, b). n \<notin> Name ` set ps \<union> S) h"
proof (induction ps arbitrary: h S)
  case Nil show ?case by simp
next
  case (Cons mig ps)
  have "filter (\<lambda>(n, b). n \<notin> Name ` set ps \<union> (insert (Name mig) S)) (record_all b ps (AList.update (Name mig) b h))
      = filter (\<lambda>(n, b). n \<notin> Name ` set ps \<union> (insert (Name mig) S)) (AList.update (Name mig) b h)"
    by (rule Cons.IH)
  also have "\<dots> = filter (\<lambda>(n, b). n \<notin> Name ` set ps \<union> (insert (Name mig) S)) h"
    by (rule filter_update_out) simp
  finally show ?case by simp
qed

section \<open>What a call does\<close>

lemma set_GetRanMigrations: "set (GetRanMigrations d) = fst ` set (History d)"
  by (simp add: GetRanMigrations_def)

lemma in_batch_names:
  "(n \<in> set (map fst (filter (\<lambda>(name, batch). batch = t) h))) = ((n, t) \<in> set h)"
  by force

lemma Migrate_unfold:
  "Migrate m =
     (if pending_of m = [] then (None, [], m)
      else case Migrate_loop (NextBatch (db m)) (pending_of m) (schema m) (db m) of
             (Some e, calls, s', d') \<Rightarrow> (Some e, calls, m\<lparr>schema := s', db := d'\<rparr>)
           | (None, calls, s', d') \<Rightarrow>
               (None, calls, m\<lparr>schema := s', db := d'\<lparr>NextBatch := NextBatch d' + 1\<rparr>\<rparr>))"
  by (simp add: Migrate_def pending_of_def set_GetRanMigrations Let_def)

lemma Rollback_unfold:
  "Rollback m =
     (if GetLastBatch (db m) = 0 \<or> to_revert m = [] then (None, [], m)
      else case Rollback_loop (to_revert m) (schema m) (db m) of
             (Some e, calls, s', d') \<Rightarrow> (Some e, calls, m\<lparr>schema := s', db := d'\<rparr>)
           | (None, calls, s', d') \<Rightarrow>
               (None, calls, m\<lparr>schema := s', db := d'\<lparr>NextBatch := GetLastBatch (db m)\<rparr>\<rparr>))"
  unfolding Rollback_def to_revert_def Let_def in_batch_names by simp

lemma Migrate_pending_empty: "pending_of m = [] \<Longrightarrow> Migrate m = (None, [], m)"
  by (simp add: Migrate_unfold)

lemma Migrate_succeed:
  "pending_of m \<noteq> [] \<Longrightarrow> Ups_succeed (pending_of m) (schema m) \<Longrightarrow>
   Migrate m =
     (None, map (\<lambda>mig. UpCall (Name mig)) (pending_of m),
      m\<lparr>schema := after_Ups (pending_of m) (schema m),
        db := \<lparr>History = record_all (NextBatch (db m)) (pending_of m) (History (db m)),
               NextBatch = NextBatch (db m) + 1\<rparr>\<rparr>)"
  by (simp add: Migrate_unfold Migrate_loop_succeed)

lemma Migrate_fail:
  "pending_of m = as @ f # rest \<Longrightarrow> Ups_succeed as (schema m) \<Longrightarrow>
   Up f (after_Ups as (schema m)) = (Some c, s') \<Longrightarrow>
   Migrate m =
     (Some (MigrateError (Name f) c), map (\<lambda>mig. UpCall (Name mig)) (as @ [f]),
      m\<lparr>schema := s',
        db := \<lparr>History = record_all (NextBatch (db m)) as (History (db m)),
               NextBatch = NextBatch (db m)\<rparr>\<rparr>)"
  by (simp add: Migrate_unfold Migrate_loop_fail)

lemma Rollback_nothing:
  "GetLastBatch (db m) = 0 \<or> to_revert m = [] \<Longrightarrow> Rollback m = (None, [], m)"
  by (simp add: Rollback_unfold)

lemma Rollback_succeed:
  "GetLastBatch (db m) \<noteq> 0 \<Longrightarrow> to_revert m \<noteq> [] \<Longrightarrow> Downs_succeed (to_revert m) (schema m) \<Longrightarrow>
   Rollback m =
     (None, map (\<lambda>mig. DownCall (Name mig)) (to_revert m),
      m\<lparr>schema := after_Downs (to_revert m) (schema m),
        db := \<lparr>History = erase_all (to_revert m) (History (db m)),
               NextBatch = GetLastBatch (db m)\<rparr>\<rparr>)"
  by (simp add: Rollback_unfold Rollback_loop_succeed)

lemma Rollback_fail:
  "GetLastBatch (db m) \<noteq> 0 \<Longrightarrow> to_revert m = as @ f # rest \<Longrightarrow> Downs_succeed as (schema m) \<Longrightarrow>
   Down f (after_Downs as (schema m)) = (Some c, s') \<Longrightarrow>
   Rollback m =
     (Some (RollbackError (Name f) c), map (\<lambda>mig. DownCall (Name mig)) (as @ [f]),
      m\<lparr>schema := s',
        db := \<lparr>History = erase_all as (History (db m)),
               NextBatch = NextBatch (db m)\<rparr>\<rparr>)"
  by (simp add: Rollback_unfold Rollback_loop_fail)

text \<open>Every call of \<open>Migrate\<close>, and of \<open>Rollback\<close>, is of one of three kinds.\<close>

lemma Migrate_cases:
  obtains (idle) "pending_of m = []" "Migrate m = (None, [], m)"
  | (succeed) "pending_of m \<noteq> []" "Ups_succeed (pending_of m) (schema m)"
      "Migrate m =
        (None, map (\<lambda>mig. UpCall (Name mig)) (pending_of m),
         m\<lparr>schema := after_Ups (pending_of m) (schema m),
           db := \<lparr>History = record_all (NextBatch (db m)) (pending_of m) (History (db m)),
                  NextBatch = NextBatch (db m) + 1\<rparr>\<rparr>)"
  | (fail) as f rest c s' where "pending_of m = as @ f # rest" "Ups_succeed as (schema m)"
      "Up f (after_Ups as (schema m)) = (Some c, s')"
      "Migrate m =
        (Some (MigrateError (Name f) c), map (\<lambda>mig. UpCall (Name mig)) (as @ [f]),
         m\<lparr>schema := s',
           db := \<lparr>History = record_all (NextBatch (db m)) as (History (db m)),
                  NextBatch = NextBatch (db m)\<rparr>\<rparr>)"
proof (cases "pending_of m = []")
  case True
  show ?thesis by (rule idle [OF True Migrate_pending_empty [OF True]])
next
  case False
  from Ups_cases [of "pending_of m" "schema m"] show ?thesis
  proof
    assume a: "Ups_succeed (pending_of m) (schema m)"
    show ?thesis by (rule succeed [OF False a Migrate_succeed [OF False a]])
  next
    assume "\<exists>as f rest c. pending_of m = as @ f # rest \<and> Ups_succeed as (schema m) \<and>
              fst (Up f (after_Ups as (schema m))) = Some c"
    then obtain as f rest c where a: "pending_of m = as @ f # rest" "Ups_succeed as (schema m)"
        and b: "fst (Up f (after_Ups as (schema m))) = Some c" by blast
    have c: "Up f (after_Ups as (schema m)) = (Some c, snd (Up f (after_Ups as (schema m))))"
      using b by (simp add: prod_eq_iff)
    show ?thesis by (rule fail [OF a c Migrate_fail [OF a c]])
  qed
qed

lemma Rollback_cases:
  obtains (idle) "GetLastBatch (db m) = 0 \<or> to_revert m = []" "Rollback m = (None, [], m)"
  | (succeed) "GetLastBatch (db m) \<noteq> 0" "to_revert m \<noteq> []" "Downs_succeed (to_revert m) (schema m)"
      "Rollback m =
        (None, map (\<lambda>mig. DownCall (Name mig)) (to_revert m),
         m\<lparr>schema := after_Downs (to_revert m) (schema m),
           db := \<lparr>History = erase_all (to_revert m) (History (db m)),
                  NextBatch = GetLastBatch (db m)\<rparr>\<rparr>)"
  | (fail) as f rest c s' where "GetLastBatch (db m) \<noteq> 0" "to_revert m = as @ f # rest"
      "Downs_succeed as (schema m)"
      "Down f (after_Downs as (schema m)) = (Some c, s')"
      "Rollback m =
        (Some (RollbackError (Name f) c), map (\<lambda>mig. DownCall (Name mig)) (as @ [f]),
         m\<lparr>schema := s',
           db := \<lparr>History = erase_all as (History (db m)),
                  NextBatch = NextBatch (db m)\<rparr>\<rparr>)"
proof (cases "GetLastBatch (db m) = 0 \<or> to_revert m = []")
  case True
  show ?thesis by (rule idle [OF True Rollback_nothing [OF True]])
next
  case False
  then have nz: "GetLastBatch (db m) \<noteq> 0" and ne: "to_revert m \<noteq> []" by simp_all
  from Downs_cases [of "to_revert m" "schema m"] show ?thesis
  proof
    assume a: "Downs_succeed (to_revert m) (schema m)"
    show ?thesis by (rule succeed [OF nz ne a Rollback_succeed [OF nz ne a]])
  next
    assume "\<exists>as f rest c. to_revert m = as @ f # rest \<and> Downs_succeed as (schema m) \<and>
              fst (Down f (after_Downs as (schema m))) = Some c"
    then obtain as f rest c where a: "to_revert m = as @ f # rest" "Downs_succeed as (schema m)"
        and b: "fst (Down f (after_Downs as (schema m))) = Some c" by blast
    have c: "Down f (after_Downs as (schema m)) = (Some c, snd (Down f (after_Downs as (schema m))))"
      using b by (simp add: prod_eq_iff)
    show ?thesis by (rule fail [OF nz a c Rollback_fail [OF nz a c]])
  qed
qed

section \<open>Consequences for the ledger\<close>

lemma pending_of_schema [simp]: "pending_of (m\<lparr>schema := s\<rparr>) = pending_of m"
  by (simp add: pending_of_def)

lemma to_revert_schema [simp]: "to_revert (m\<lparr>schema := s\<rparr>) = to_revert m"
  by (simp add: to_revert_def)

lemma Rollback_orphans_once:
  assumes "\<forall>mig \<in> set (migrations m). (Name mig, GetLastBatch (db m)) \<notin> set (History (db m))"
  shows "Rollback m = (None, [], m)"
proof -
  have "to_revert m = []" using assms by (simp add: to_revert_def filter_empty_conv)
  then show ?thesis by (simp add: Rollback_nothing)
qed

lemma steps_migrations: "steps m0 m \<Longrightarrow> migrations m = migrations m0"
proof (induction rule: steps.induct)
  case start
  show ?case by simp
next
  case (migrate m r calls m')
  show ?case by (cases m rule: Migrate_cases) (use migrate in auto)
next
  case (rollback m r calls m')
  show ?case by (cases m rule: Rollback_cases) (use rollback in auto)
next
  case (executor m s)
  then show ?case by simp
qed

lemma set_erase_all_subset: "set (erase_all ps h) \<subseteq> set h"
  by (simp add: erase_all_filter)

lemma bounded_Migrate:
  assumes "bounded (db m)" "Migrate m = (r, calls, m')"
  shows "bounded (db m')"
proof (cases m rule: Migrate_cases)
  case idle
  then show ?thesis using assms by simp
next
  case succeed
  then have "db m' = \<lparr>History = record_all (NextBatch (db m)) (pending_of m) (History (db m)),
                  NextBatch = NextBatch (db m) + 1\<rparr>" using assms by auto
  then show ?thesis
    using assms(1) set_record_all_subset [of "NextBatch (db m)" "pending_of m" "History (db m)"]
    by (fastforce simp: bounded_def)
next
  case (fail as f rest c s')
  then have "db m' = \<lparr>History = record_all (NextBatch (db m)) as (History (db m)),
                  NextBatch = NextBatch (db m)\<rparr>" using assms by auto
  then show ?thesis
    using assms(1) set_record_all_subset [of "NextBatch (db m)" as "History (db m)"]
    by (fastforce simp: bounded_def)
qed

lemma bounded_Rollback:
  assumes "bounded (db m)" "Rollback m = (r, calls, m')"
  shows "bounded (db m')"
proof (cases m rule: Rollback_cases)
  case idle
  then show ?thesis using assms by simp
next
  case succeed
  then have d: "db m' = \<lparr>History = erase_all (to_revert m) (History (db m)),
                  NextBatch = GetLastBatch (db m)\<rparr>" using assms by auto
  have "1 \<le> GetLastBatch (db m)"
    using succeed(1) GetLastBatch_nonneg [of "db m"] by simp
  moreover have "1 \<le> b \<and> b \<le> GetLastBatch (db m)"
    if "(n, b) \<in> set (erase_all (to_revert m) (History (db m)))" for n b
  proof -
    have "(n, b) \<in> set (History (db m))" using that set_erase_all_subset by fastforce
    then show ?thesis using assms(1) GetLastBatch_ge by (fastforce simp: bounded_def)
  qed
  ultimately show ?thesis by (auto simp: bounded_def d)
next
  case (fail as f rest c s')
  then have "db m' = \<lparr>History = erase_all as (History (db m)),
                  NextBatch = NextBatch (db m)\<rparr>" using assms by auto
  then show ?thesis
    using assms(1) set_erase_all_subset [of as "History (db m)"]
    by (fastforce simp: bounded_def)
qed

lemma GetLastBatch_le: "0 \<le> k \<Longrightarrow> \<forall>(n, b) \<in> set (History d). b \<le> k \<Longrightarrow> GetLastBatch d \<le> k"
  unfolding GetLastBatch_Max by (subst Max_le_iff) auto

lemma record_all_has:
  "mig \<in> set ps \<Longrightarrow> (Name mig, b) \<in> set (record_all b ps h)"
  by (rule map_of_SomeD) (simp add: map_of_record_all)

lemma GetLastBatch_record_all:
  assumes "ps \<noteq> []" "GetLastBatch \<lparr>History = h, NextBatch = x\<rparr> \<le> N"
  shows "GetLastBatch \<lparr>History = record_all N ps h, NextBatch = y\<rparr> = N"
proof (rule antisym)
  have "0 \<le> N" using assms(2) GetLastBatch_nonneg [of "\<lparr>History = h, NextBatch = x\<rparr>"] by simp
  moreover have "b \<le> N" if "(n, b) \<in> set (record_all N ps h)" for n b
  proof -
    from that set_record_all_subset [of N ps h]
    have "(n, b) \<in> set h \<or> b = N" by auto
    then show ?thesis using assms(2) GetLastBatch_ge [of n b "\<lparr>History = h, NextBatch = x\<rparr>"] by auto
  qed
  ultimately show "GetLastBatch \<lparr>History = record_all N ps h, NextBatch = y\<rparr> \<le> N"
    by (intro GetLastBatch_le) auto
next
  obtain p where "p \<in> set ps" using assms(1) by (cases ps) auto
  then have "(Name p, N) \<in> set (record_all N ps h)" by (rule record_all_has)
  then show "N \<le> GetLastBatch \<lparr>History = record_all N ps h, NextBatch = y\<rparr>"
    using GetLastBatch_ge [of "Name p" N "\<lparr>History = record_all N ps h, NextBatch = y\<rparr>"] by simp
qed

text \<open>After a successful Migrate from a state whose counter exceeds every batch number,
  the migrations to revert are those just applied, from the last to the first.\<close>

lemma to_revert_after_Migrate:
  assumes ne: "pending_of m \<noteq> []" and lt: "GetLastBatch (db m) < NextBatch (db m)"
  shows "to_revert (m\<lparr>schema := s,
           db := \<lparr>History = record_all (NextBatch (db m)) (pending_of m) (History (db m)),
                  NextBatch = y\<rparr>\<rparr>) = rev (pending_of m)"
proof -
  let ?N = "NextBatch (db m)" and ?h = "History (db m)"
  let ?h' = "record_all ?N (pending_of m) ?h"
  have "GetLastBatch \<lparr>History = ?h, NextBatch = NextBatch (db m)\<rparr> \<le> ?N"
    using lt by (simp add: GetLastBatch_def)
  then have top: "GetLastBatch \<lparr>History = ?h', NextBatch = y\<rparr> = ?N"
    by (rule GetLastBatch_record_all [OF ne])
  have iff: "((Name mig, ?N) \<in> set ?h') = (Name mig \<notin> fst ` set ?h)"
    if "mig \<in> set (migrations m)" for mig
  proof
    assume a: "(Name mig, ?N) \<in> set ?h'"
    show "Name mig \<notin> fst ` set ?h"
    proof
      assume "Name mig \<in> fst ` set ?h"
      then have "Name mig \<notin> Name ` set (pending_of m)"
        by (force simp: pending_of_def)
      then have "(Name mig, ?N) \<in> set ?h"
        using a set_record_all_subset [of ?N "pending_of m" ?h] by auto
      then have "?N \<le> GetLastBatch (db m)" by (rule GetLastBatch_ge)
      then show False using lt by simp
    qed
  next
    assume "Name mig \<notin> fst ` set ?h"
    then have "mig \<in> set (pending_of m)" using that by (simp add: pending_of_def)
    then show "(Name mig, ?N) \<in> set ?h'" by (rule record_all_has)
  qed
  have "filter (\<lambda>mig. (Name mig, ?N) \<in> set ?h') (migrations m)
          = filter (\<lambda>mig. Name mig \<notin> fst ` set ?h) (migrations m)"
    by (rule filter_cong) (simp_all add: iff)
  then have "filter (\<lambda>mig. (Name mig, ?N) \<in> set ?h') (migrations m) = pending_of m"
    by (simp add: pending_of_def)
  then show ?thesis
    by (simp add: to_revert_def top rev_filter [symmetric])
qed

lemma erase_record_all:
  assumes "Name ` set ps \<inter> fst ` set h = {}"
  shows "erase_all (rev ps) (record_all b ps h) = h"
proof -
  have "erase_all (rev ps) (record_all b ps h) = filter (\<lambda>(n, b). n \<notin> Name ` set ps \<union> {}) (record_all b ps h)"
    by (simp add: erase_all_filter)
  also have "\<dots> = filter (\<lambda>(n, b). n \<notin> Name ` set ps \<union> {}) h" by (rule filter_record_all)
  also have "\<dots> = h" using assms by (intro filter_True) force
  finally show ?thesis .
qed


lemma map_of_erase_all:
  "map_of (erase_all ps h) n = (if n \<in> Name ` set ps then None else map_of h n)"
  by (induction ps arbitrary: h) (auto simp: delete_conv')

lemma keys_erase_all: "fst ` set (erase_all ps h) = fst ` set h - Name ` set ps"
  by (force simp: erase_all_filter)

lemma to_revert_entry: "mig \<in> set (to_revert m) \<Longrightarrow> (Name mig, GetLastBatch (db m)) \<in> set (History (db m))"
  by (simp add: to_revert_def)

lemma filter_names_prefix:
  "distinct (map Name (as @ bs)) \<Longrightarrow> filter (\<lambda>mig. Name mig \<notin> Name ` set as) (as @ bs) = bs"
proof -
  assume d: "distinct (map Name (as @ bs))"
  have "filter (\<lambda>mig. Name mig \<notin> Name ` set as) as = []"
    by (simp add: filter_empty_conv)
  moreover have "filter (\<lambda>mig. Name mig \<notin> Name ` set as) bs = bs"
    using d by (intro filter_True) auto
  ultimately show ?thesis by simp
qed

lemma pending_after_partial:
  assumes "distinct (map Name (migrations m))" and "pending_of m = as @ bs"
    and "migrations m' = migrations m" and "History (db m') = record_all N as (History (db m))"
  shows "pending_of m' = bs"
proof -
  have d: "distinct (map Name (as @ bs))"
    using assms(1,2) by (metis distinct_map_filter pending_of_def)
  have "pending_of m' = filter (\<lambda>mig. Name mig \<notin> Name ` set as) (pending_of m)"
    by (simp add: pending_of_def assms(3,4) keys_record_all conj_commute)
  also have "\<dots> = bs" unfolding assms(2) by (rule filter_names_prefix [OF d])
  finally show ?thesis .
qed

lemma sorted_pending: "sorted (map Name (migrations m)) \<Longrightarrow> sorted (map Name (pending_of m))"
  unfolding pending_of_def by (rule sorted_filter)

lemma rev_to_revert:
  "rev (to_revert m) =
     filter (\<lambda>mig. (Name mig, GetLastBatch (db m)) \<in> set (History (db m))) (migrations m)"
  by (simp add: to_revert_def rev_filter)

lemma sorted_to_revert:
  "sorted (map Name (migrations m)) \<Longrightarrow> sorted (map Name (rev (to_revert m)))"
  unfolding rev_to_revert by (rule sorted_filter)

lemma Migrate_calls:
  assumes "Migrate m = (r, ups, m1)"
  shows "prefix ups (map (\<lambda>mig. UpCall (Name mig)) (pending_of m)) \<and>
         (r = None \<longrightarrow> ups = map (\<lambda>mig. UpCall (Name mig)) (pending_of m))"
proof (cases m rule: Migrate_cases)
  case idle
  then show ?thesis using assms by simp
next
  case succeed
  then show ?thesis using assms by simp
next
  case (fail as f rest c s')
  then have "ups = map (\<lambda>mig. UpCall (Name mig)) (as @ [f])" "r \<noteq> None" using assms by auto
  then show ?thesis using fail(1) by (auto simp: prefix_def)
qed

lemma Rollback_calls:
  assumes "Rollback m = (r, downs, m')"
  shows "prefix downs (map (\<lambda>mig. DownCall (Name mig)) (to_revert m)) \<and>
         (r = None \<and> GetLastBatch (db m) \<noteq> 0 \<longrightarrow> downs = map (\<lambda>mig. DownCall (Name mig)) (to_revert m))"
proof (cases m rule: Rollback_cases)
  case idle
  then show ?thesis using assms by auto
next
  case succeed
  then show ?thesis using assms by simp
next
  case (fail as f rest c s')
  then have "downs = map (\<lambda>mig. DownCall (Name mig)) (as @ [f])" "r \<noteq> None" using assms by auto
  then show ?thesis using fail(2) by (auto simp: prefix_def)
qed

lemma Migrate_succeeded:
  assumes "Migrate m = (None, ups, m1)" "pending_of m \<noteq> []"
  shows "m1 = m\<lparr>schema := after_Ups (pending_of m) (schema m),
           db := \<lparr>History = record_all (NextBatch (db m)) (pending_of m) (History (db m)),
                  NextBatch = NextBatch (db m) + 1\<rparr>\<rparr>"
  by (cases m rule: Migrate_cases) (use assms in auto)


lemma GetLastBatch_mono:
  assumes "set (History d') \<subseteq> set (History d)"
  shows "GetLastBatch d' \<le> GetLastBatch d"
proof (rule GetLastBatch_le)
  show "0 \<le> GetLastBatch d" by (rule GetLastBatch_nonneg)
  show "\<forall>(n, b) \<in> set (History d'). b \<le> GetLastBatch d"
    using assms GetLastBatch_ge [of _ _ d] by auto
qed

lemma GetLastBatch_record_all_le:
  assumes "GetLastBatch \<lparr>History = h, NextBatch = x\<rparr> \<le> N"
  shows "GetLastBatch \<lparr>History = record_all N ps h, NextBatch = y\<rparr> \<le> N"
proof (cases "ps = []")
  case True
  then show ?thesis using assms by (simp add: GetLastBatch_def)
next
  case False
  then show ?thesis using GetLastBatch_record_all [OF False assms] by simp
qed

lemma pending_after_success:
  assumes "Migrate m = (None, ups, m1)"
  shows "pending_of m1 = []"
proof (cases m rule: Migrate_cases)
  case idle
  then show ?thesis using assms by simp
next
  case succeed
  then have m1: "m1 = m\<lparr>schema := after_Ups (pending_of m) (schema m),
           db := \<lparr>History = record_all (NextBatch (db m)) (pending_of m) (History (db m)),
                  NextBatch = NextBatch (db m) + 1\<rparr>\<rparr>"
    using assms by simp
  show ?thesis
    unfolding m1 by (auto simp: pending_of_def keys_record_all filter_empty_conv)
next
  case (fail as f rest c s')
  then show ?thesis using assms by simp
qed

lemma erased_below:
  assumes "fst ` set (History (db m)) \<subseteq> Name ` set (migrations m)" "GetLastBatch (db m) \<noteq> 0"
  shows "GetLastBatch \<lparr>History = erase_all (to_revert m) (History (db m)), NextBatch = y\<rparr>
           < GetLastBatch (db m)"
proof (rule GetLastBatch_less)
  show "0 < GetLastBatch (db m)" using assms(2) GetLastBatch_nonneg [of "db m"] by simp
  have "b < GetLastBatch (db m)"
    if "(n, b) \<in> set (erase_all (to_revert m) (History (db m)))" for n b
  proof -
    have in_h: "(n, b) \<in> set (History (db m))" and out: "n \<notin> Name ` set (to_revert m)"
      using that by (auto simp: erase_all_filter)
    have "b \<le> GetLastBatch (db m)" using in_h by (rule GetLastBatch_ge)
    moreover have "b \<noteq> GetLastBatch (db m)"
    proof
      assume b: "b = GetLastBatch (db m)"
      have "n \<in> fst ` set (History (db m))" using in_h by force
      then obtain mig where mig: "mig \<in> set (migrations m)" "Name mig = n"
        using assms(1) by auto
      then have "mig \<in> set (to_revert m)" using in_h b by (simp add: to_revert_def)
      then show False using out mig(2) by auto
    qed
    ultimately show ?thesis by simp
  qed
  then show "\<forall>(n, b) \<in> set (History \<lparr>History = erase_all (to_revert m) (History (db m)), NextBatch = y\<rparr>).
               b < GetLastBatch (db m)" by auto
qed

lemma consistent_Migrate:
  assumes "consistent m" "Migrate m = (r, calls, m')"
  shows "consistent m'"
proof (cases m rule: Migrate_cases)
  case idle
  then show ?thesis using assms by simp
next
  case succeed
  let ?N = "NextBatch (db m)"
  have m': "m' = m\<lparr>schema := after_Ups (pending_of m) (schema m),
           db := \<lparr>History = record_all ?N (pending_of m) (History (db m)), NextBatch = ?N + 1\<rparr>\<rparr>"
    using succeed assms by simp
  have "GetLastBatch \<lparr>History = History (db m), NextBatch = ?N\<rparr> \<le> ?N"
    using assms(1) by (simp add: consistent_def GetLastBatch_def)
  then have "GetLastBatch \<lparr>History = record_all ?N (pending_of m) (History (db m)), NextBatch = ?N + 1\<rparr> \<le> ?N"
    by (rule GetLastBatch_record_all_le)
  then have "GetLastBatch (db m') < NextBatch (db m')" by (simp add: m')
  moreover have "fst ` set (History (db m')) \<subseteq> Name ` set (migrations m')"
    using assms(1) by (auto simp: m' consistent_def keys_record_all pending_of_def)
  ultimately show ?thesis by (simp add: consistent_def)
next
  case (fail as f rest c s')
  let ?N = "NextBatch (db m)"
  have m': "m' = m\<lparr>schema := s',
           db := \<lparr>History = record_all ?N as (History (db m)), NextBatch = ?N\<rparr>\<rparr>"
    using fail assms by simp
  have "GetLastBatch \<lparr>History = History (db m), NextBatch = ?N\<rparr> \<le> ?N"
    using assms(1) by (simp add: consistent_def GetLastBatch_def)
  then have "GetLastBatch \<lparr>History = record_all ?N as (History (db m)), NextBatch = ?N\<rparr> \<le> ?N"
    by (rule GetLastBatch_record_all_le)
  then have le: "GetLastBatch (db m') \<le> NextBatch (db m')" by (simp add: m')
  have "set as \<subseteq> set (migrations m)"
    using fail(1) by (metis filter_is_subset pending_of_def set_append sup.boundedE)
  then have keys: "fst ` set (History (db m')) \<subseteq> Name ` set (migrations m')"
    using assms(1) by (auto simp: m' consistent_def keys_record_all)
  have "pending_of m' \<noteq> []" if "distinct (map Name (migrations m'))"
  proof -
    have "distinct (map Name (migrations m))" using that by (simp add: m')
    then have "pending_of m' = f # rest"
      by (rule pending_after_partial [OF _ fail(1)]) (simp_all add: m')
    then show ?thesis by simp
  qed
  then show ?thesis using le keys by (auto simp: consistent_def)
qed

lemma consistent_Rollback:
  assumes "consistent m" "Rollback m = (r, calls, m')"
  shows "consistent m'"
proof (cases m rule: Rollback_cases)
  case idle
  then show ?thesis using assms by simp
next
  case succeed
  have m': "m' = m\<lparr>schema := after_Downs (to_revert m) (schema m),
           db := \<lparr>History = erase_all (to_revert m) (History (db m)),
                  NextBatch = GetLastBatch (db m)\<rparr>\<rparr>"
    using succeed assms by simp
  have keys: "fst ` set (History (db m)) \<subseteq> Name ` set (migrations m)"
    using assms(1) by (simp add: consistent_def)
  have "GetLastBatch (db m') < NextBatch (db m')"
    using erased_below [OF keys succeed(1)] by (simp add: m')
  moreover have "fst ` set (History (db m')) \<subseteq> Name ` set (migrations m')"
    using keys by (auto simp: m' keys_erase_all)
  ultimately show ?thesis by (simp add: consistent_def)
next
  case (fail as f rest c s')
  have m': "m' = m\<lparr>schema := s',
           db := \<lparr>History = erase_all as (History (db m)), NextBatch = NextBatch (db m)\<rparr>\<rparr>"
    using fail assms by simp
  have sub: "set (History (db m')) \<subseteq> set (History (db m))"
    by (simp add: m' set_erase_all_subset)
  have le: "GetLastBatch (db m') \<le> GetLastBatch (db m)" by (rule GetLastBatch_mono [OF sub])
  have keys: "fst ` set (History (db m')) \<subseteq> Name ` set (migrations m')"
    using assms(1) sub by (auto simp: m' consistent_def keys_erase_all)
  have "pending_of m = []" if "pending_of m' = []"
    using that sub by (auto simp: pending_of_def m' filter_empty_conv keys_erase_all)
  then have "GetLastBatch (db m') < NextBatch (db m')"
    if "distinct (map Name (migrations m'))" "pending_of m' = []"
    using that assms(1) le by (auto simp: consistent_def m')
  moreover have "GetLastBatch (db m') \<le> NextBatch (db m')"
    using le assms(1) by (simp add: consistent_def m')
  ultimately show ?thesis using keys by (auto simp: consistent_def)
qed

lemma consistent_steps:
  assumes "steps (NewMigrator migs s) m"
  shows "consistent m"
  using assms
proof (induction rule: steps.induct)
  case start
  show ?case by (simp add: consistent_def NewMigrator_def NewSimulatedDB_def GetLastBatch_def)
next
  case (migrate m r calls m')
  then show ?case using consistent_Migrate by blast
next
  case (rollback m r calls m')
  then show ?case using consistent_Rollback by blast
next
  case (executor m s)
  then show ?case by (simp add: consistent_def)
qed

lemma distinct_sorted_names:
  "distinct (map Name (migrations (NewMigrator migs s))) = distinct (map Name migs)"
proof -
  have "mset (map Name (sort_key Name migs)) = mset (map Name migs)" by simp
  then have "distinct (map Name (sort_key Name migs)) = distinct (map Name migs)"
    by (rule mset_eq_imp_distinct_iff)
  then show ?thesis by (simp add: NewMigrator_def)
qed


lemma update_keeps: "n \<noteq> k \<Longrightarrow> (n, b) \<in> set h \<Longrightarrow> (n, b) \<in> set (AList.update k v h)"
  by (induction h) auto

lemma record_all_keeps:
  "n \<notin> Name ` set ps \<Longrightarrow> (n, b) \<in> set h \<Longrightarrow> (n, b) \<in> set (record_all N ps h)"
  by (induction ps arbitrary: h) (auto simp: update_keeps)

lemma distinct_record_all:
  "distinct (map fst h) \<Longrightarrow> distinct (map fst (record_all N ps h))"
  by (induction ps arbitrary: h) (auto simp: distinct_update)

lemma distinct_erase_all:
  "distinct (map fst h) \<Longrightarrow> distinct (map fst (erase_all ps h))"
  by (simp add: erase_all_filter distinct_map_filter)

lemma erase_all_keeps:
  "n \<notin> Name ` set ps \<Longrightarrow> (n, b) \<in> set h \<Longrightarrow> (n, b) \<in> set (erase_all ps h)"
  by (simp add: erase_all_filter)

lemma pending_prefix_fresh:
  assumes "pending_of m = as @ bs" "(n, b) \<in> set (History (db m))"
  shows "n \<notin> Name ` set as"
proof
  assume "n \<in> Name ` set as"
  then obtain mig where "mig \<in> set (pending_of m)" "Name mig = n" using assms(1) by auto
  then have "n \<notin> fst ` set (History (db m))" by (auto simp: pending_of_def)
  then show False using assms(2) by force
qed

lemma to_revert_prefix_top:
  assumes "to_revert m = as @ bs" "distinct (map fst (History (db m)))"
    "(n, b) \<in> set (History (db m))" "b < GetLastBatch (db m)"
  shows "n \<notin> Name ` set as"
proof
  assume "n \<in> Name ` set as"
  then obtain mig where "mig \<in> set (to_revert m)" "Name mig = n" using assms(1) by auto
  then have "(n, GetLastBatch (db m)) \<in> set (History (db m))" using to_revert_entry by blast
  then have "b = GetLastBatch (db m)"
    using assms(2,3) by (meson eq_key_imp_eq_value)
  then show False using assms(4) by simp
qed

text \<open>An entry under an unregistered name stays for ever, and so does every entry
  of a lower batch.\<close>

lemma pinned_top: "pinned orphan t low m \<Longrightarrow> t \<le> GetLastBatch (db m)"
  unfolding pinned_def using GetLastBatch_ge by blast

lemma pinned_Migrate:
  assumes "pinned orphan t low m" "Migrate m = (r, calls, m')"
  shows "pinned orphan t low m'"
proof -
  have *: "pinned orphan t low m'"
    if m': "migrations m' = migrations m" "History (db m') = record_all N as (History (db m))"
      and p: "pending_of m = as @ bs" for N as bs
  proof -
    have keep: "(n, b) \<in> set (History (db m'))" if "(n, b) \<in> set (History (db m))" for n b
      using that pending_prefix_fresh [OF p that] by (simp add: m'(2) record_all_keeps)
    have "distinct (map fst (History (db m')))"
      using assms(1) by (simp add: m'(2) pinned_def distinct_record_all)
    then show ?thesis using assms(1) keep unfolding pinned_def m'(1) by fast
  qed
  show ?thesis
  proof (cases m rule: Migrate_cases)
    case idle
    then show ?thesis using assms by simp
  next
    case succeed
    have "pending_of m = pending_of m @ []" by simp
    then show ?thesis by (rule * [rotated 2]) (use succeed assms(2) in auto)
  next
    case (fail as f rest c s')
    show ?thesis by (rule * [OF _ _ fail(1)]) (use fail assms(2) in auto)
  qed
qed

lemma pinned_Rollback:
  assumes "pinned orphan t low m" "Rollback m = (r, calls, m')"
  shows "pinned orphan t low m'"
proof -
  have *: "pinned orphan t low m'"
    if m': "migrations m' = migrations m" "History (db m') = erase_all as (History (db m))"
      and p: "to_revert m = as @ bs" for as bs
  proof -
    have d: "distinct (map fst (History (db m)))" using assms(1) by (simp add: pinned_def)
    have "set as \<subseteq> set (migrations m)"
    proof -
      have "set as \<subseteq> set (to_revert m)" using p by simp
      also have "\<dots> \<subseteq> set (migrations m)" by (auto simp: to_revert_def)
      finally show ?thesis .
    qed
    then have "orphan \<notin> Name ` set as" using assms(1) by (auto simp: pinned_def)
    then have o: "(orphan, t) \<in> set (History (db m'))"
      using assms(1) by (simp add: m'(2) pinned_def erase_all_keeps)
    have keep: "(n, b) \<in> set (History (db m'))"
      if "(n, b) \<in> set (History (db m))" "b < t" for n b
    proof -
      have "b < GetLastBatch (db m)" using that(2) pinned_top [OF assms(1)] by simp
      then have "n \<notin> Name ` set as" by (rule to_revert_prefix_top [OF p d that(1)])
      then show ?thesis using that(1) by (simp add: m'(2) erase_all_keeps)
    qed
    have "distinct (map fst (History (db m')))" using d by (simp add: m'(2) distinct_erase_all)
    then show ?thesis using assms(1) o keep unfolding pinned_def m'(1) by fast
  qed
  show ?thesis
  proof (cases m rule: Rollback_cases)
    case idle
    then show ?thesis using assms by simp
  next
    case succeed
    have "to_revert m = to_revert m @ []" by simp
    then show ?thesis by (rule * [rotated 2]) (use succeed assms(2) in auto)
  next
    case (fail as f rest c s')
    show ?thesis by (rule * [OF _ _ fail(2)]) (use fail assms(2) in auto)
  qed
qed

lemma pinned_steps:
  assumes "steps m m'" "pinned orphan t low m"
  shows "pinned orphan t low m'"
  using assms
proof (induction rule: steps.induct)
  case start
  then show ?case by simp
next
  case (migrate m1 r calls m2)
  then show ?case using pinned_Migrate by blast
next
  case (rollback m1 r calls m2)
  then show ?case using pinned_Rollback by blast
next
  case (executor m1 s)
  then show ?case by (simp add: pinned_def)
qed

lemma lower_batches_stay:
  assumes orph: "\<forall>mig \<in> set (migrations m). (Name mig, GetLastBatch (db m)) \<notin> set (History (db m))"
    and nz: "GetLastBatch (db m) \<noteq> 0" and d: "distinct (map fst (History (db m)))"
    and st: "steps m m'" and e: "(n, b) \<in> set (History (db m))" and lt: "b < GetLastBatch (db m)"
  shows "(n, b) \<in> set (History (db m'))"
proof -
  obtain orphan where o: "(orphan, GetLastBatch (db m)) \<in> set (History (db m))"
    using GetLastBatch_in [OF nz] by blast
  then have "orphan \<notin> Name ` set (migrations m)" using orph by auto
  then have "pinned orphan (GetLastBatch (db m)) (History (db m)) m"
    using o d by (auto simp: pinned_def)
  then have "pinned orphan (GetLastBatch (db m)) (History (db m)) m'"
    by (rule pinned_steps [OF st])
  then show ?thesis using e lt by (auto simp: pinned_def)
qed


text \<open>The names of the ledger stay distinct.\<close>

lemma distinct_steps:
  assumes "steps m0 m" "distinct (map fst (History (db m0)))"
  shows "distinct (map fst (History (db m)))"
  using assms
proof (induction rule: steps.induct)
  case start
  then show ?case by simp
next
  case (migrate m r calls m')
  then have d: "distinct (map fst (History (db m)))" by simp
  show ?case
    by (cases m rule: Migrate_cases) (use migrate(2) d in \<open>auto simp: distinct_record_all\<close>)
next
  case (rollback m r calls m')
  then have d: "distinct (map fst (History (db m)))" by simp
  show ?case
    by (cases m rule: Rollback_cases) (use rollback(2) d in \<open>auto simp: distinct_erase_all\<close>)
next
  case (executor m s)
  then show ?case by simp
qed

lemma distinct_fresh:
  assumes "steps (NewMigrator migs s) m"
  shows "distinct (map fst (History (db m)))"
  by (rule distinct_steps [OF assms]) (simp add: NewMigrator_def NewSimulatedDB_def)
section \<open>The examples, evaluated\<close>

lemmas example_defs =
  example_state_def sorted_examples_def example_migrations_def example_migration_def
  NewMigrator_def NewSimulatedDB_def Migrate_def Rollback_def GetRanMigrations_def
  GetLastBatch_def pending_of_def to_revert_def

lemma example_fresh: "NewMigrator example_migrations w = example_state w [] 1"
  by (simp add: example_defs)

lemma example_Migrate_fresh:
  "Migrate (example_state [] [] 1) =
     (None, [UpCall ''001_a'', UpCall ''002_b'', UpCall ''003_x''],
      example_state [] [(''001_a'', 1), (''002_b'', 1), (''003_x'', 1)] 2)"
  by (simp add: example_defs)

lemma example_Migrate_again:
  "Migrate (example_state [] [(''001_a'', 1), (''002_b'', 1), (''003_x'', 1)] 2) =
     (None, [], example_state [] [(''001_a'', 1), (''002_b'', 1), (''003_x'', 1)] 2)"
  by (simp add: example_defs)

lemma example_Rollback_all:
  "Rollback (example_state [] [(''001_a'', 1), (''002_b'', 1), (''003_x'', 1)] 2) =
     (None, [DownCall ''003_x'', DownCall ''002_b'', DownCall ''001_a''],
      example_state [] [] 1)"
  by (simp add: example_defs)

lemma example_Migrate_broken:
  "Migrate (example_state [UpCall ''002_b''] [] 1) =
     (Some (MigrateError ''002_b'' ''no such table''), [UpCall ''001_a'', UpCall ''002_b''],
      example_state [UpCall ''002_b''] [(''001_a'', 1)] 1)"
  by (simp add: example_defs)

lemma example_steps_applied:
  "steps (NewMigrator example_migrations [])
     (example_state [] [(''001_a'', 1), (''002_b'', 1), (''003_x'', 1)] 2)"
  by (rule steps.migrate [OF steps.start]) (simp add: example_fresh example_Migrate_fresh)

lemma example_steps_broken:
  "steps (NewMigrator example_migrations [UpCall ''002_b''])
     (example_state [UpCall ''002_b''] [(''001_a'', 1)] 1)"
  by (rule steps.migrate [OF steps.start]) (simp add: example_fresh example_Migrate_broken)

section \<open>The claims\<close>

subsection \<open>C1: Migrate, then Rollback\<close>

text \<open>
  Claim C1, as amended. In a migrator state in which some registered migration is
  pending and the counter \<open>NextBatch\<close> exceeds every batch number of the ledger (as in
  a fresh migrator, and after any \<open>Migrate\<close> or \<open>Rollback\<close> that ran to its end), if
  every \<open>Up\<close> call of \<open>Migrate\<close> and every \<open>Down\<close> call of the \<open>Rollback\<close> after
  it succeeds, then both calls return success and the ledger's entries and its counter
  are, after the \<open>Rollback\<close>, what they were before the \<open>Migrate\<close>.
\<close>

theorem Migrate_Rollback_round_trip:
  assumes "pending_of m \<noteq> []" and "GetLastBatch (db m) < NextBatch (db m)"
    and "Ups_succeed (pending_of m) (schema m)"
    and "Downs_succeed (rev (pending_of m)) (after_Ups (pending_of m) (schema m))"
  shows "\<exists>ups m1 downs m2.
           Migrate m = (None, ups, m1) \<and> Rollback m1 = (None, downs, m2) \<and>
           History (db m2) = History (db m) \<and> NextBatch (db m2) = NextBatch (db m)"
proof -
  let ?N = "NextBatch (db m)" and ?h = "History (db m)" and ?ps = "pending_of m"
  define m1 where "m1 = m\<lparr>schema := after_Ups ?ps (schema m),
                         db := \<lparr>History = record_all ?N ?ps ?h, NextBatch = ?N + 1\<rparr>\<rparr>"
  have mig: "Migrate m = (None, map (\<lambda>mig. UpCall (Name mig)) ?ps, m1)"
    unfolding m1_def by (rule Migrate_succeed [OF assms(1) assms(3)])
  have rv: "to_revert m1 = rev ?ps"
    unfolding m1_def by (rule to_revert_after_Migrate [OF assms(1) assms(2)])
  have "GetLastBatch \<lparr>History = ?h, NextBatch = ?N\<rparr> \<le> ?N"
    using assms(2) by (simp add: GetLastBatch_def)
  then have "GetLastBatch \<lparr>History = record_all ?N ?ps ?h, NextBatch = ?N + 1\<rparr> = ?N"
    by (rule GetLastBatch_record_all [OF assms(1)])
  then have top: "GetLastBatch (db m1) = ?N" by (simp add: m1_def)
  have "0 \<le> GetLastBatch (db m)" by (rule GetLastBatch_nonneg)
  then have nz: "GetLastBatch (db m1) \<noteq> 0" using top assms(2) by simp
  have ne: "to_revert m1 \<noteq> []" using rv assms(1) by simp
  have ds: "Downs_succeed (to_revert m1) (schema m1)"
    using assms(4) by (simp add: rv) (simp add: m1_def)
  define m2 where "m2 = m1\<lparr>schema := after_Downs (to_revert m1) (schema m1),
           db := \<lparr>History = erase_all (to_revert m1) (History (db m1)),
                  NextBatch = GetLastBatch (db m1)\<rparr>\<rparr>"
  have rb: "Rollback m1 = (None, map (\<lambda>mig. DownCall (Name mig)) (to_revert m1), m2)"
    unfolding m2_def by (rule Rollback_succeed [OF nz ne ds])
  have "Name ` set ?ps \<inter> fst ` set ?h = {}" by (auto simp: pending_of_def)
  then have "erase_all (rev ?ps) (record_all ?N ?ps ?h) = ?h" by (rule erase_record_all)
  then have "History (db m2) = ?h" by (simp add: m2_def rv) (simp add: m1_def)
  moreover have "NextBatch (db m2) = ?N" by (simp add: m2_def top)
  ultimately show ?thesis using mig rb by blast
qed

theorem Migrate_Rollback_round_trip_witness:
  "pending_of (example_state [] [(''002_b'', 1)] 2) \<noteq> [] \<and>
   GetLastBatch (db (example_state [] [(''002_b'', 1)] 2)) < NextBatch (db (example_state [] [(''002_b'', 1)] 2)) \<and>
   Ups_succeed (pending_of (example_state [] [(''002_b'', 1)] 2)) (schema (example_state [] [(''002_b'', 1)] 2)) \<and>
   Downs_succeed (rev (pending_of (example_state [] [(''002_b'', 1)] 2)))
     (after_Ups (pending_of (example_state [] [(''002_b'', 1)] 2)) (schema (example_state [] [(''002_b'', 1)] 2))) \<and>
   (\<exists>ups m1 downs m2.
      Migrate (example_state [] [(''002_b'', 1)] 2) = (None, ups, m1) \<and>
      Rollback m1 = (None, downs, m2) \<and>
      History (db m2) = [(''002_b'', 1)] \<and> NextBatch (db m2) = 2)"
proof -
  have h1: "pending_of (example_state [] [(''002_b'', 1)] 2) \<noteq> []"
    by (simp add: example_defs)
  have h2: "GetLastBatch (db (example_state [] [(''002_b'', 1)] 2))
              < NextBatch (db (example_state [] [(''002_b'', 1)] 2))"
    by (simp add: example_defs)
  have h3: "Ups_succeed (pending_of (example_state [] [(''002_b'', 1)] 2))
              (schema (example_state [] [(''002_b'', 1)] 2))"
    by (simp add: example_defs)
  have h4: "Downs_succeed (rev (pending_of (example_state [] [(''002_b'', 1)] 2)))
     (after_Ups (pending_of (example_state [] [(''002_b'', 1)] 2)) (schema (example_state [] [(''002_b'', 1)] 2)))"
    by (simp add: example_defs)
  have e: "History (db (example_state [] [(''002_b'', 1)] 2)) = [(''002_b'', 1)]"
     "NextBatch (db (example_state [] [(''002_b'', 1)] 2)) = 2"
    by (simp_all add: example_state_def)
  from Migrate_Rollback_round_trip [OF h1 h2 h3 h4] show ?thesis
    unfolding e using h1 h2 h3 h4 unfolding e by blast
qed

text \<open>
  The claim as it was written, for every migrator state, fails in the state a first
  \<open>Migrate\<close> leaves: every migration is applied in batch 1 and the counter is 2; a
  \<open>Migrate\<close> there finds nothing pending and changes nothing, and the \<open>Rollback\<close>
  after it reverts batch 1, so that the ledger is empty and the counter is 1. Every
  executor call succeeds on the way.
\<close>

theorem Migrate_Rollback_round_trip_counterexample:
  "steps (NewMigrator example_migrations [])
     (example_state [] [(''001_a'', 1), (''002_b'', 1), (''003_x'', 1)] 2) \<and>
   Migrate (example_state [] [(''001_a'', 1), (''002_b'', 1), (''003_x'', 1)] 2) =
     (None, [], example_state [] [(''001_a'', 1), (''002_b'', 1), (''003_x'', 1)] 2) \<and>
   Rollback (example_state [] [(''001_a'', 1), (''002_b'', 1), (''003_x'', 1)] 2) =
     (None, [DownCall ''003_x'', DownCall ''002_b'', DownCall ''001_a''], example_state [] [] 1) \<and>
   History (db (example_state [] [] 1)) \<noteq>
     History (db (example_state [] [(''001_a'', 1), (''002_b'', 1), (''003_x'', 1)] 2)) \<and>
   NextBatch (db (example_state [] [] 1)) \<noteq>
     NextBatch (db (example_state [] [(''001_a'', 1), (''002_b'', 1), (''003_x'', 1)] 2))"
  using example_steps_applied example_Migrate_again example_Rollback_all
  by (simp add: example_state_def)

subsection \<open>C2: the counter and the highest batch number\<close>

text \<open>
  Claim C2, as amended. In every state reached from a freshly built migrator by any
  sequence of \<open>Migrate\<close> and \<open>Rollback\<close> calls, whichever of their executor calls
  succeed or fail, the counter \<open>NextBatch\<close> is at least the highest batch number of
  the ledger. When the registered names are distinct it is strictly greater whenever no
  registered migration is pending, and so after every \<open>Migrate\<close> that returns success:
  the two can be equal only while a \<open>Migrate\<close> that failed part-way has left
  migrations recorded under a counter it did not advance. After a \<open>Rollback\<close> that
  returns success having reverted a batch, the counter is exactly the number of that
  batch, the highest before the call, and is strictly greater than every batch number
  left in the ledger.
\<close>

theorem NextBatch_above_ledger:
  assumes "steps (NewMigrator migs s) m"
  shows "GetLastBatch (db m) \<le> NextBatch (db m) \<and>
         (distinct (map Name migs) \<and> pending_of m = [] \<longrightarrow>
            GetLastBatch (db m) < NextBatch (db m)) \<and>
         (\<forall>ups m'. distinct (map Name migs) \<and> Migrate m = (None, ups, m') \<longrightarrow>
            GetLastBatch (db m') < NextBatch (db m')) \<and>
         (\<forall>downs m'. Rollback m = (None, downs, m') \<and> downs \<noteq> [] \<longrightarrow>
            NextBatch (db m') = GetLastBatch (db m) \<and>
            GetLastBatch (db m') < NextBatch (db m'))"
proof -
  have c: "consistent m" by (rule consistent_steps [OF assms])
  have migs: "migrations m = migrations (NewMigrator migs s)"
    by (rule steps_migrations [OF assms])
  have d: "distinct (map Name (migrations m)) = distinct (map Name migs)"
    by (simp add: migs distinct_sorted_names)
  have p1: "GetLastBatch (db m) \<le> NextBatch (db m)" using c by (simp add: consistent_def)
  have p2: "distinct (map Name migs) \<and> pending_of m = [] \<longrightarrow>
            GetLastBatch (db m) < NextBatch (db m)"
    using c d by (simp add: consistent_def)
  have p3: "GetLastBatch (db m') < NextBatch (db m')"
    if "distinct (map Name migs)" "Migrate m = (None, ups, m')" for ups m'
  proof -
    have "consistent m'" by (rule consistent_Migrate [OF c that(2)])
    moreover have "pending_of m' = []" by (rule pending_after_success [OF that(2)])
    moreover have "migrations m' = migrations m"
      by (rule steps_migrations [OF steps.migrate [OF steps.start that(2)]])
    ultimately show ?thesis using that(1) d by (simp add: consistent_def)
  qed
  have p4: "NextBatch (db m') = GetLastBatch (db m) \<and> GetLastBatch (db m') < NextBatch (db m')"
    if rb: "Rollback m = (None, downs, m')" and ne: "downs \<noteq> []" for downs m'
  proof (cases m rule: Rollback_cases)
    case idle
    then show ?thesis using rb ne by simp
  next
    case succeed
    have m': "m' = m\<lparr>schema := after_Downs (to_revert m) (schema m),
           db := \<lparr>History = erase_all (to_revert m) (History (db m)),
                  NextBatch = GetLastBatch (db m)\<rparr>\<rparr>"
      using succeed rb by simp
    have keys: "fst ` set (History (db m)) \<subseteq> Name ` set (migrations m)"
      using c by (simp add: consistent_def)
    show ?thesis using erased_below [OF keys succeed(1)] by (simp add: m')
  next
    case (fail as f rest c s')
    then show ?thesis using rb by simp
  qed
  show ?thesis using p1 p2 p3 p4 by blast
qed

theorem NextBatch_above_ledger_witness:
  "steps (NewMigrator example_migrations [])
     (example_state [] [(''001_a'', 1), (''002_b'', 1), (''003_x'', 1)] 2) \<and>
   distinct (map Name example_migrations) \<and>
   pending_of (example_state [] [(''001_a'', 1), (''002_b'', 1), (''003_x'', 1)] 2) = [] \<and>
   GetLastBatch (db (example_state [] [(''001_a'', 1), (''002_b'', 1), (''003_x'', 1)] 2)) = 1 \<and>
   NextBatch (db (example_state [] [(''001_a'', 1), (''002_b'', 1), (''003_x'', 1)] 2)) = 2 \<and>
   Rollback (example_state [] [(''001_a'', 1), (''002_b'', 1), (''003_x'', 1)] 2) =
     (None, [DownCall ''003_x'', DownCall ''002_b'', DownCall ''001_a''], example_state [] [] 1) \<and>
   NextBatch (db (example_state [] [] 1)) = 1 \<and>
   GetLastBatch (db (example_state [] [] 1)) < NextBatch (db (example_state [] [] 1))"
proof -
  have d: "distinct (map Name example_migrations)"
    and p: "pending_of (example_state [] [(''001_a'', 1), (''002_b'', 1), (''003_x'', 1)] 2) = []"
    and g: "GetLastBatch (db (example_state [] [(''001_a'', 1), (''002_b'', 1), (''003_x'', 1)] 2)) = 1"
    and n: "NextBatch (db (example_state [] [(''001_a'', 1), (''002_b'', 1), (''003_x'', 1)] 2)) = 2"
    by (simp_all add: example_defs)
  have ne: "[DownCall ''003_x'', DownCall ''002_b'', DownCall ''001_a''] \<noteq> []" by simp
  from NextBatch_above_ledger [OF example_steps_applied]
  have "NextBatch (db (example_state [] [] 1)) =
          GetLastBatch (db (example_state [] [(''001_a'', 1), (''002_b'', 1), (''003_x'', 1)] 2)) \<and>
        GetLastBatch (db (example_state [] [] 1)) < NextBatch (db (example_state [] [] 1))"
    using example_Rollback_all ne by blast
  then show ?thesis using example_steps_applied example_Rollback_all d p g n by simp
qed

text \<open>
  The claim as it was written fails after a \<open>Migrate\<close> that fails part-way, with no
  \<open>Rollback\<close> having been called at all: on a fresh migrator over the three example
  migrations, the second \<open>Up\<close> call failing, \<open>Migrate\<close> leaves the first migration
  recorded under batch 1 and the counter at 1, not above it.
\<close>

theorem NextBatch_above_ledger_counterexample:
  "Migrate (NewMigrator example_migrations [UpCall ''002_b'']) =
     (Some (MigrateError ''002_b'' ''no such table''), [UpCall ''001_a'', UpCall ''002_b''],
      example_state [UpCall ''002_b''] [(''001_a'', 1)] 1) \<and>
   steps (NewMigrator example_migrations [UpCall ''002_b''])
     (example_state [UpCall ''002_b''] [(''001_a'', 1)] 1) \<and>
   GetLastBatch (db (example_state [UpCall ''002_b''] [(''001_a'', 1)] 1)) = 1 \<and>
   NextBatch (db (example_state [UpCall ''002_b''] [(''001_a'', 1)] 1)) = 1 \<and>
   \<not> GetLastBatch (db (example_state [UpCall ''002_b''] [(''001_a'', 1)] 1))
       < NextBatch (db (example_state [UpCall ''002_b''] [(''001_a'', 1)] 1))"
  using example_Migrate_broken example_steps_broken
  by (simp add: example_fresh) (simp add: example_defs)

subsection \<open>C3: the order of the calls\<close>

text \<open>
  Claim C3. Let the list of migrations be sorted by name, as \<open>NewMigrator\<close> leaves
  it. The pending migrations are then in ascending order of name, and \<open>Migrate\<close>
  calls \<open>Up\<close> on them in that order: its calls are a prefix of theirs, and all of
  them when it returns success. A \<open>Rollback\<close> after it (from any executor state \<open>s\<close>)
  calls \<open>Down\<close> on the registered migrations that have an entry under the highest
  batch number, in descending order of name: its calls are a prefix of theirs, and all
  of them when it returns success. When the \<open>Migrate\<close> succeeded on a non-empty
  pending list from a counter above every batch number, these are exactly the migrations
  it applied, in the reverse of the order it applied them in, wherever they stand in
  the full list.
\<close>

theorem call_order:
  assumes "sorted (map Name (migrations m))"
  shows "sorted (map Name (pending_of m)) \<and>
    (\<forall>r ups m1. Migrate m = (r, ups, m1) \<longrightarrow>
       prefix ups (map (\<lambda>mig. UpCall (Name mig)) (pending_of m)) \<and>
       (r = None \<longrightarrow> ups = map (\<lambda>mig. UpCall (Name mig)) (pending_of m)) \<and>
       (\<forall>s r' downs m2. Rollback (m1\<lparr>schema := s\<rparr>) = (r', downs, m2) \<longrightarrow>
          rev (to_revert m1) =
            filter (\<lambda>mig. (Name mig, GetLastBatch (db m1)) \<in> set (History (db m1))) (migrations m) \<and>
          sorted (map Name (rev (to_revert m1))) \<and>
          prefix downs (map (\<lambda>mig. DownCall (Name mig)) (to_revert m1)) \<and>
          (r' = None \<and> GetLastBatch (db m1) \<noteq> 0 \<longrightarrow>
             downs = map (\<lambda>mig. DownCall (Name mig)) (to_revert m1)) \<and>
          (r = None \<and> pending_of m \<noteq> [] \<and> GetLastBatch (db m) < NextBatch (db m) \<longrightarrow>
             to_revert m1 = rev (pending_of m))))"
proof -
  have sp: "sorted (map Name (pending_of m))" by (rule sorted_pending [OF assms])
  have main: "prefix ups (map (\<lambda>mig. UpCall (Name mig)) (pending_of m)) \<and>
       (r = None \<longrightarrow> ups = map (\<lambda>mig. UpCall (Name mig)) (pending_of m)) \<and>
       (\<forall>s r' downs m2. Rollback (m1\<lparr>schema := s\<rparr>) = (r', downs, m2) \<longrightarrow>
          rev (to_revert m1) =
            filter (\<lambda>mig. (Name mig, GetLastBatch (db m1)) \<in> set (History (db m1))) (migrations m) \<and>
          sorted (map Name (rev (to_revert m1))) \<and>
          prefix downs (map (\<lambda>mig. DownCall (Name mig)) (to_revert m1)) \<and>
          (r' = None \<and> GetLastBatch (db m1) \<noteq> 0 \<longrightarrow>
             downs = map (\<lambda>mig. DownCall (Name mig)) (to_revert m1)) \<and>
          (r = None \<and> pending_of m \<noteq> [] \<and> GetLastBatch (db m) < NextBatch (db m) \<longrightarrow>
             to_revert m1 = rev (pending_of m)))"
    if mg: "Migrate m = (r, ups, m1)" for r ups m1
  proof -
    have migs: "migrations m1 = migrations m"
      by (rule steps_migrations [OF steps.migrate [OF steps.start mg]])
    have rb: "rev (to_revert m1) =
            filter (\<lambda>mig. (Name mig, GetLastBatch (db m1)) \<in> set (History (db m1))) (migrations m) \<and>
          sorted (map Name (rev (to_revert m1))) \<and>
          prefix downs (map (\<lambda>mig. DownCall (Name mig)) (to_revert m1)) \<and>
          (r' = None \<and> GetLastBatch (db m1) \<noteq> 0 \<longrightarrow>
             downs = map (\<lambda>mig. DownCall (Name mig)) (to_revert m1)) \<and>
          (r = None \<and> pending_of m \<noteq> [] \<and> GetLastBatch (db m) < NextBatch (db m) \<longrightarrow>
             to_revert m1 = rev (pending_of m))"
      if rk: "Rollback (m1\<lparr>schema := s\<rparr>) = (r', downs, m2)" for s r' downs m2
    proof -
      have "rev (to_revert m1) =
            filter (\<lambda>mig. (Name mig, GetLastBatch (db m1)) \<in> set (History (db m1))) (migrations m)"
        using rev_to_revert [of m1] by (simp add: migs)
      moreover have "sorted (map Name (rev (to_revert m1)))"
        by (rule sorted_to_revert) (simp add: migs assms)
      moreover have "prefix downs (map (\<lambda>mig. DownCall (Name mig)) (to_revert m1)) \<and>
          (r' = None \<and> GetLastBatch (db m1) \<noteq> 0 \<longrightarrow>
             downs = map (\<lambda>mig. DownCall (Name mig)) (to_revert m1))"
        using Rollback_calls [OF rk] by simp
      moreover have "to_revert m1 = rev (pending_of m)"
        if "r = None" "pending_of m \<noteq> []" "GetLastBatch (db m) < NextBatch (db m)"
      proof -
        have "m1 = m\<lparr>schema := after_Ups (pending_of m) (schema m),
           db := \<lparr>History = record_all (NextBatch (db m)) (pending_of m) (History (db m)),
                  NextBatch = NextBatch (db m) + 1\<rparr>\<rparr>"
          using mg that(1,2) Migrate_succeeded by blast
        then show ?thesis using to_revert_after_Migrate [OF that(2,3)] by simp
      qed
      ultimately show ?thesis by blast
    qed
    show ?thesis using Migrate_calls [OF mg] rb by blast
  qed
  show ?thesis using sp main by blast
qed

theorem call_order_witness:
  "sorted (map Name (migrations (example_state [] [(''002_b'', 1)] 2))) \<and>
   map Name (pending_of (example_state [] [(''002_b'', 1)] 2)) = [''001_a'', ''003_x''] \<and>
   GetLastBatch (db (example_state [] [(''002_b'', 1)] 2))
     < NextBatch (db (example_state [] [(''002_b'', 1)] 2)) \<and>
   Migrate (example_state [] [(''002_b'', 1)] 2) =
     (None, [UpCall ''001_a'', UpCall ''003_x''],
      example_state [] [(''002_b'', 1), (''001_a'', 2), (''003_x'', 2)] 3) \<and>
   Rollback ((example_state [] [(''002_b'', 1), (''001_a'', 2), (''003_x'', 2)] 3)\<lparr>schema := []\<rparr>) =
     (None, [DownCall ''003_x'', DownCall ''001_a''], example_state [] [(''002_b'', 1)] 2) \<and>
   to_revert (example_state [] [(''002_b'', 1), (''001_a'', 2), (''003_x'', 2)] 3) =
     rev (pending_of (example_state [] [(''002_b'', 1)] 2))"
proof -
  have h: "sorted (map Name (migrations (example_state [] [(''002_b'', 1)] 2)))"
    by (simp add: example_defs)
  have p: "map Name (pending_of (example_state [] [(''002_b'', 1)] 2)) = [''001_a'', ''003_x'']"
    and ne: "pending_of (example_state [] [(''002_b'', 1)] 2) \<noteq> []"
    and lt: "GetLastBatch (db (example_state [] [(''002_b'', 1)] 2))
               < NextBatch (db (example_state [] [(''002_b'', 1)] 2))"
    by (simp_all add: example_defs)
  have e1: "Migrate (example_state [] [(''002_b'', 1)] 2) =
     (None, [UpCall ''001_a'', UpCall ''003_x''],
      example_state [] [(''002_b'', 1), (''001_a'', 2), (''003_x'', 2)] 3)"
    by (simp add: example_defs)
  have e2: "Rollback ((example_state [] [(''002_b'', 1), (''001_a'', 2), (''003_x'', 2)] 3)\<lparr>schema := []\<rparr>) =
     (None, [DownCall ''003_x'', DownCall ''001_a''], example_state [] [(''002_b'', 1)] 2)"
    by (simp add: example_defs)
  from call_order [OF h] e1 e2 ne lt
  have "to_revert (example_state [] [(''002_b'', 1), (''001_a'', 2), (''003_x'', 2)] 3) =
     rev (pending_of (example_state [] [(''002_b'', 1)] 2))"
    by blast
  then show ?thesis using h p lt e1 e2 by simp
qed

subsection \<open>C4: a batch that fails part-way\<close>

text \<open>
  Claim C4. Let the pending migrations be \<open>as @ f # rest\<close>, the names of the
  registered migrations being distinct, and let the \<open>Up\<close> calls of \<open>as\<close> succeed and
  the one of \<open>f\<close> fail with cause \<open>c\<close>. Then \<open>Migrate\<close> returns the error naming
  \<open>f\<close> and \<open>c\<close> after calling \<open>Up\<close> on \<open>as\<close> and \<open>f\<close> only; the migrations of
  \<open>as\<close> are recorded under \<open>N\<close>, the counter's value at the start of the call; \<open>f\<close>
  and \<open>rest\<close> are not recorded; no other entry changes; the counter is still \<open>N\<close>.
  A later \<open>Migrate\<close>, from any executor state \<open>s\<close> from which the \<open>Up\<close> calls of
  \<open>f # rest\<close> succeed, calls \<open>Up\<close> on exactly \<open>f # rest\<close>, records them under the
  same \<open>N\<close>, changes no other entry and advances the counter to \<open>N + 1\<close>.
\<close>

theorem Migrate_failure_and_retry:
  assumes "distinct (map Name (migrations m))"
    and "pending_of m = as @ f # rest" and "Ups_succeed as (schema m)"
    and "Up f (after_Ups as (schema m)) = (Some c, s')"
  shows "\<exists>m1.
     Migrate m = (Some (MigrateError (Name f) c), map (\<lambda>mig. UpCall (Name mig)) as @ [UpCall (Name f)], m1) \<and>
     (\<forall>mig \<in> set as. map_of (History (db m1)) (Name mig) = Some (NextBatch (db m))) \<and>
     (\<forall>mig \<in> set (f # rest). map_of (History (db m1)) (Name mig) = None) \<and>
     (\<forall>n. n \<notin> Name ` set as \<longrightarrow> map_of (History (db m1)) n = map_of (History (db m)) n) \<and>
     NextBatch (db m1) = NextBatch (db m) \<and>
     (\<forall>s. Ups_succeed (f # rest) s \<longrightarrow>
        (\<exists>m2. Migrate (m1\<lparr>schema := s\<rparr>) = (None, map (\<lambda>mig. UpCall (Name mig)) (f # rest), m2) \<and>
           (\<forall>mig \<in> set (f # rest). map_of (History (db m2)) (Name mig) = Some (NextBatch (db m))) \<and>
           (\<forall>n. n \<notin> Name ` set (f # rest) \<longrightarrow> map_of (History (db m2)) n = map_of (History (db m1)) n) \<and>
           NextBatch (db m2) = NextBatch (db m) + 1))"
proof -
  let ?N = "NextBatch (db m)"
  define m1 where "m1 = m\<lparr>schema := s',
        db := \<lparr>History = record_all ?N as (History (db m)), NextBatch = ?N\<rparr>\<rparr>"
  have mg: "Migrate m = (Some (MigrateError (Name f) c),
              map (\<lambda>mig. UpCall (Name mig)) as @ [UpCall (Name f)], m1)"
    using Migrate_fail [OF assms(2-4)] by (simp add: m1_def)
  have d: "distinct (map Name (as @ f # rest))"
    using assms(1,2) by (metis distinct_map_filter pending_of_def)
  have p: "Name mig \<notin> fst ` set (History (db m))" if "mig \<in> set (as @ f # rest)" for mig
    using that assms(2) [symmetric] by (simp add: pending_of_def)
  have a1: "\<forall>mig \<in> set as. map_of (History (db m1)) (Name mig) = Some ?N"
    by (simp add: m1_def map_of_record_all)
  have a2: "\<forall>mig \<in> set (f # rest). map_of (History (db m1)) (Name mig) = None"
  proof
    fix mig assume mig: "mig \<in> set (f # rest)"
    then have "Name mig \<notin> Name ` set as" using d by auto
    moreover have "Name mig \<notin> fst ` set (History (db m))"
      using p [of mig] mig by auto
    then have "map_of (History (db m)) (Name mig) = None"
      by (simp add: map_of_eq_None_iff)
    ultimately show "map_of (History (db m1)) (Name mig) = None"
      by (simp add: m1_def map_of_record_all)
  qed
  have a3: "\<forall>n. n \<notin> Name ` set as \<longrightarrow> map_of (History (db m1)) n = map_of (History (db m)) n"
    by (simp add: m1_def map_of_record_all)
  have a4: "NextBatch (db m1) = ?N" by (simp add: m1_def)
  have retry: "\<exists>m2. Migrate (m1\<lparr>schema := s\<rparr>) = (None, map (\<lambda>mig. UpCall (Name mig)) (f # rest), m2) \<and>
           (\<forall>mig \<in> set (f # rest). map_of (History (db m2)) (Name mig) = Some ?N) \<and>
           (\<forall>n. n \<notin> Name ` set (f # rest) \<longrightarrow> map_of (History (db m2)) n = map_of (History (db m1)) n) \<and>
           NextBatch (db m2) = ?N + 1"
    if ok: "Ups_succeed (f # rest) s" for s
  proof -
    have pe: "pending_of (m1\<lparr>schema := s\<rparr>) = f # rest"
      by (rule pending_after_partial [OF assms(1,2)]) (simp_all add: m1_def)
    then have ne: "pending_of (m1\<lparr>schema := s\<rparr>) \<noteq> []" by simp
    have ok': "Ups_succeed (pending_of (m1\<lparr>schema := s\<rparr>)) (schema (m1\<lparr>schema := s\<rparr>))"
      using ok by (simp only: pe) simp
    define m2 where "m2 = m1\<lparr>schema := after_Ups (f # rest) s,
        db := \<lparr>History = record_all ?N (f # rest) (History (db m1)), NextBatch = ?N + 1\<rparr>\<rparr>"
    have "Migrate (m1\<lparr>schema := s\<rparr>) = (None, map (\<lambda>mig. UpCall (Name mig)) (f # rest), m2)"
      using Migrate_succeed [OF ne ok'] unfolding pe by (simp add: m2_def a4)
    moreover have "\<forall>mig \<in> set (f # rest). map_of (History (db m2)) (Name mig) = Some ?N"
      unfolding m2_def by (simp add: map_of_record_all del: record_all_simps)
    moreover have "\<forall>n. n \<notin> Name ` set (f # rest) \<longrightarrow> map_of (History (db m2)) n = map_of (History (db m1)) n"
      unfolding m2_def by (simp add: map_of_record_all del: record_all_simps)
    moreover have "NextBatch (db m2) = ?N + 1" by (simp add: m2_def)
    ultimately show ?thesis by blast
  qed
  show ?thesis using mg a1 a2 a3 a4 retry by blast
qed

theorem Migrate_failure_and_retry_witness:
  "distinct (map Name (migrations (example_state [UpCall ''002_b''] [] 1))) \<and>
   pending_of (example_state [UpCall ''002_b''] [] 1) =
     [example_migration ''001_a''] @ example_migration ''002_b'' # [example_migration ''003_x''] \<and>
   Ups_succeed [example_migration ''001_a''] (schema (example_state [UpCall ''002_b''] [] 1)) \<and>
   Up (example_migration ''002_b'')
      (after_Ups [example_migration ''001_a''] (schema (example_state [UpCall ''002_b''] [] 1))) =
     (Some ''no such table'', [UpCall ''002_b'']) \<and>
   Migrate (example_state [UpCall ''002_b''] [] 1) =
     (Some (MigrateError ''002_b'' ''no such table''), [UpCall ''001_a'', UpCall ''002_b''],
      example_state [UpCall ''002_b''] [(''001_a'', 1)] 1) \<and>
   Ups_succeed (example_migration ''002_b'' # [example_migration ''003_x'']) [] \<and>
   Migrate ((example_state [UpCall ''002_b''] [(''001_a'', 1)] 1)\<lparr>schema := []\<rparr>) =
     (None, [UpCall ''002_b'', UpCall ''003_x''],
      example_state [] [(''001_a'', 1), (''002_b'', 1), (''003_x'', 1)] 2)"
proof -
  have h1: "distinct (map Name (migrations (example_state [UpCall ''002_b''] [] 1)))"
    by (simp add: example_defs)
  have h2: "pending_of (example_state [UpCall ''002_b''] [] 1) =
     [example_migration ''001_a''] @ example_migration ''002_b'' # [example_migration ''003_x'']"
    by (simp add: example_defs)
  have h3: "Ups_succeed [example_migration ''001_a''] (schema (example_state [UpCall ''002_b''] [] 1))"
    by (simp add: example_defs)
  have h4: "Up (example_migration ''002_b'')
      (after_Ups [example_migration ''001_a''] (schema (example_state [UpCall ''002_b''] [] 1))) =
     (Some ''no such table'', [UpCall ''002_b''])"
    by (simp add: example_defs)
  have h5: "Ups_succeed (example_migration ''002_b'' # [example_migration ''003_x'']) []"
    by (simp add: example_defs)
  have e: "Migrate ((example_state [UpCall ''002_b''] [(''001_a'', 1)] 1)\<lparr>schema := []\<rparr>) =
     (None, [UpCall ''002_b'', UpCall ''003_x''],
      example_state [] [(''001_a'', 1), (''002_b'', 1), (''003_x'', 1)] 2)"
    by (simp add: example_defs)
  from Migrate_failure_and_retry [OF h1 h2 h3 h4]
  obtain m1 where "Migrate (example_state [UpCall ''002_b''] [] 1) =
      (Some (MigrateError (Name (example_migration ''002_b'')) ''no such table''),
       map (\<lambda>mig. UpCall (Name mig)) [example_migration ''001_a''] @
         [UpCall (Name (example_migration ''002_b''))], m1)"
    by blast
  then have "Migrate (example_state [UpCall ''002_b''] [] 1) =
     (Some (MigrateError ''002_b'' ''no such table''), [UpCall ''001_a'', UpCall ''002_b''],
      example_state [UpCall ''002_b''] [(''001_a'', 1)] 1)"
    using example_Migrate_broken by (simp add: example_migration_def)
  then show ?thesis using h1 h2 h3 h4 h5 e by simp
qed

subsection \<open>C5: a Rollback that fails part-way\<close>

text \<open>
  Claim C5. Let the ledger have a highest batch and the migrations to revert be
  \<open>as @ f # rest\<close>, and let the \<open>Down\<close> calls of \<open>as\<close> succeed and the one of \<open>f\<close>
  fail with cause \<open>c\<close>. Then \<open>Rollback\<close> stops there: its \<open>Down\<close> calls are those of
  \<open>as\<close> and then the one of \<open>f\<close>, and none is made for \<open>rest\<close>. The error it returns
  has a message holding the name of \<open>f\<close> and the cause, and wraps the cause. The counter
  is unchanged; the entries of \<open>f\<close> and of \<open>rest\<close>, under the batch being rolled back,
  are still in the ledger (for a name not shared with a migration of \<open>as\<close>), and no
  entry under a name other than those of \<open>as\<close> has changed.
\<close>

theorem Rollback_failure:
  assumes "GetLastBatch (db m) \<noteq> 0" and "to_revert m = as @ f # rest"
    and "Downs_succeed as (schema m)" and "Down f (after_Downs as (schema m)) = (Some c, s')"
  shows "\<exists>e m'.
           Rollback m = (Some e, map (\<lambda>mig. DownCall (Name mig)) as @ [DownCall (Name f)], m') \<and>
           Error e = ''failed to rollback migration '' @ Name f @ '': '' @ c \<and> Unwrap e = c \<and>
           NextBatch (db m') = NextBatch (db m) \<and>
           (\<forall>mig \<in> set (f # rest). Name mig \<notin> Name ` set as \<longrightarrow>
              (Name mig, GetLastBatch (db m)) \<in> set (History (db m'))) \<and>
           (\<forall>n. n \<notin> Name ` set as \<longrightarrow> map_of (History (db m')) n = map_of (History (db m)) n)"
proof -
  define m' where "m' = m\<lparr>schema := s',
        db := \<lparr>History = erase_all as (History (db m)), NextBatch = NextBatch (db m)\<rparr>\<rparr>"
  have rb: "Rollback m = (Some (RollbackError (Name f) c),
              map (\<lambda>mig. DownCall (Name mig)) as @ [DownCall (Name f)], m')"
    using Rollback_fail [OF assms] by (simp add: m'_def)
  have "(Name mig, GetLastBatch (db m)) \<in> set (History (db m'))"
    if "mig \<in> set (f # rest)" "Name mig \<notin> Name ` set as" for mig
  proof -
    have "mig \<in> set (to_revert m)" using that(1) assms(2) by auto
    then have "(Name mig, GetLastBatch (db m)) \<in> set (History (db m))" by (rule to_revert_entry)
    then show ?thesis using that(2) by (simp add: m'_def erase_all_filter)
  qed
  moreover have "map_of (History (db m')) n = map_of (History (db m)) n" if "n \<notin> Name ` set as" for n
    using that by (simp add: m'_def map_of_erase_all)
  moreover have "NextBatch (db m') = NextBatch (db m)" by (simp add: m'_def)
  ultimately show ?thesis using rb by auto
qed

theorem Rollback_failure_witness:
  "GetLastBatch (db (example_state [DownCall ''002_b''] [(''001_a'', 1), (''002_b'', 1), (''003_x'', 1)] 2)) \<noteq> 0 \<and>
   to_revert (example_state [DownCall ''002_b''] [(''001_a'', 1), (''002_b'', 1), (''003_x'', 1)] 2) =
     [example_migration ''003_x''] @ example_migration ''002_b'' # [example_migration ''001_a''] \<and>
   Downs_succeed [example_migration ''003_x''] (schema (example_state [DownCall ''002_b''] [(''001_a'', 1), (''002_b'', 1), (''003_x'', 1)] 2)) \<and>
   Down (example_migration ''002_b'')
      (after_Downs [example_migration ''003_x''] (schema (example_state [DownCall ''002_b''] [(''001_a'', 1), (''002_b'', 1), (''003_x'', 1)] 2))) =
     (Some ''no such table'', [DownCall ''002_b'']) \<and>
   Rollback (example_state [DownCall ''002_b''] [(''001_a'', 1), (''002_b'', 1), (''003_x'', 1)] 2) =
     (Some (RollbackError ''002_b'' ''no such table''), [DownCall ''003_x'', DownCall ''002_b''],
      example_state [DownCall ''002_b''] [(''001_a'', 1), (''002_b'', 1)] 2) \<and>
   Error (RollbackError ''002_b'' ''no such table'') =
     ''failed to rollback migration 002_b: no such table''"
proof -
  have h1: "GetLastBatch (db (example_state [DownCall ''002_b''] [(''001_a'', 1), (''002_b'', 1), (''003_x'', 1)] 2)) \<noteq> 0"
    by (simp add: example_defs)
  have h2: "to_revert (example_state [DownCall ''002_b''] [(''001_a'', 1), (''002_b'', 1), (''003_x'', 1)] 2) =
     [example_migration ''003_x''] @ example_migration ''002_b'' # [example_migration ''001_a'']"
    by (simp add: example_defs)
  have h3: "Downs_succeed [example_migration ''003_x''] (schema (example_state [DownCall ''002_b''] [(''001_a'', 1), (''002_b'', 1), (''003_x'', 1)] 2))"
    by (simp add: example_defs)
  have h4: "Down (example_migration ''002_b'')
      (after_Downs [example_migration ''003_x''] (schema (example_state [DownCall ''002_b''] [(''001_a'', 1), (''002_b'', 1), (''003_x'', 1)] 2))) =
     (Some ''no such table'', [DownCall ''002_b''])"
    by (simp add: example_defs)
  have e: "Rollback (example_state [DownCall ''002_b''] [(''001_a'', 1), (''002_b'', 1), (''003_x'', 1)] 2) =
     (Some (RollbackError ''002_b'' ''no such table''), [DownCall ''003_x'', DownCall ''002_b''],
      example_state [DownCall ''002_b''] [(''001_a'', 1), (''002_b'', 1)] 2)"
    by (simp add: example_defs)
  from Rollback_failure [OF h1 h2 h3 h4]
  obtain e' where "Error e' =
      ''failed to rollback migration '' @ Name (example_migration ''002_b'') @ '': '' @ ''no such table''"
    and "Rollback (example_state [DownCall ''002_b''] [(''001_a'', 1), (''002_b'', 1), (''003_x'', 1)] 2) =
      (Some e', map (\<lambda>mig. DownCall (Name mig)) [example_migration ''003_x''] @
         [DownCall (Name (example_migration ''002_b''))],
       example_state [DownCall ''002_b''] [(''001_a'', 1), (''002_b'', 1)] 2)"
    using e by auto
  then have "Error (RollbackError ''002_b'' ''no such table'') =
     ''failed to rollback migration 002_b: no such table''"
    using e by (simp add: example_migration_def)
  then show ?thesis using h1 h2 h3 h4 e by simp
qed

subsection \<open>C6: a second Migrate does nothing\<close>

text \<open>
  Claim C6. After a \<open>Migrate\<close> that returned success (every pending migration was
  applied), a second \<open>Migrate\<close> over the same registered migrations makes no \<open>Up\<close>
  call, returns success and leaves the migrator, its ledger and counter included, as it
  was; this holds whatever the executor's state \<open>s\<close> is at the second call.
\<close>

theorem Migrate_twice:
  assumes "Migrate m = (None, calls, m1)"
  shows "Migrate (m1\<lparr>schema := s\<rparr>) = (None, [], m1\<lparr>schema := s\<rparr>)"
proof (cases m rule: Migrate_cases)
  case idle
  then have "m1 = m" using assms by simp
  then show ?thesis using idle(1) by (simp add: Migrate_pending_empty)
next
  case succeed
  then have m1: "m1 = m\<lparr>schema := after_Ups (pending_of m) (schema m),
           db := \<lparr>History = record_all (NextBatch (db m)) (pending_of m) (History (db m)),
                  NextBatch = NextBatch (db m) + 1\<rparr>\<rparr>"
    using assms by simp
  have "pending_of m1 = []"
    unfolding m1 by (auto simp: pending_of_def keys_record_all filter_empty_conv)
  then show ?thesis by (simp add: Migrate_pending_empty)
next
  case (fail as f rest c s')
  then show ?thesis using assms by simp
qed

theorem Migrate_twice_witness:
  "Migrate (example_state [] [] 1) =
     (None, [UpCall ''001_a'', UpCall ''002_b'', UpCall ''003_x''],
      example_state [] [(''001_a'', 1), (''002_b'', 1), (''003_x'', 1)] 2) \<and>
   Migrate ((example_state [] [(''001_a'', 1), (''002_b'', 1), (''003_x'', 1)] 2)\<lparr>schema := []\<rparr>) =
     (None, [], (example_state [] [(''001_a'', 1), (''002_b'', 1), (''003_x'', 1)] 2)\<lparr>schema := []\<rparr>)"
  using Migrate_twice [OF example_Migrate_fresh, of "[]"] example_Migrate_fresh by simp

subsection \<open>C7: Status\<close>

text \<open>
  Claim C7. \<open>Status\<close> leaves the migrator as it was (the ledger and the list of
  migrations are unchanged). The list of a migrator built by \<open>NewMigrator\<close> holds the
  registered migrations, each as often as it was registered, in ascending order of
  name; \<open>Status\<close> prints one line for each of them, in that order: line \<open>i\<close> says
  that migration \<open>i\<close> ran in batch \<open>k\<close> when the ledger maps its name to \<open>k\<close>, and
  that it is pending when the ledger has no entry for its name. The lines after those
  are closing remarks, not lines about a migration.
\<close>

theorem Status_classifies:
  assumes "migrations m = migrations (NewMigrator migs s0)"
  shows "snd (Status m) = m \<and>
         mset (migrations m) = mset migs \<and> sorted (map Name (migrations m)) \<and>
         length (migrations m) \<le> length (fst (Status m)) \<and>
         (\<forall>i<length (migrations m). \<forall>k.
            map_of (History (db m)) (Name (migrations m ! i)) = Some k \<longrightarrow>
              fst (Status m) ! i = Ran (Name (migrations m ! i)) k) \<and>
         (\<forall>i<length (migrations m).
            map_of (History (db m)) (Name (migrations m ! i)) = None \<longrightarrow>
              fst (Status m) ! i = Pending (Name (migrations m ! i))) \<and>
         set (drop (length (migrations m)) (fst (Status m))) \<subseteq> {FullyUpToDate, NoneRunYet}"
proof -
  have "snd (Status m) = m" by (simp add: Status_def Let_def)
  moreover have "mset (migrations m) = mset migs" "sorted (map Name (migrations m))"
    using assms by (simp_all add: NewMigrator_def)
  moreover have "length (migrations m) \<le> length (fst (Status m))"
    by (simp add: Status_def Let_def)
  moreover have "\<forall>i<length (migrations m). \<forall>k.
            map_of (History (db m)) (Name (migrations m ! i)) = Some k \<longrightarrow>
              fst (Status m) ! i = Ran (Name (migrations m ! i)) k"
    by (simp add: Status_def Let_def nth_append)
  moreover have "\<forall>i<length (migrations m).
            map_of (History (db m)) (Name (migrations m ! i)) = None \<longrightarrow>
              fst (Status m) ! i = Pending (Name (migrations m ! i))"
    by (simp add: Status_def Let_def nth_append)
  moreover have "set (drop (length (migrations m)) (fst (Status m))) \<subseteq> {FullyUpToDate, NoneRunYet}"
    by (auto simp: Status_def Let_def)
  ultimately show ?thesis by blast
qed

theorem Status_classifies_witness:
  "migrations (example_state [] [(''001_a'', 1)] 1) = migrations (NewMigrator example_migrations []) \<and>
   snd (Status (example_state [] [(''001_a'', 1)] 1)) = example_state [] [(''001_a'', 1)] 1 \<and>
   map Name (migrations (example_state [] [(''001_a'', 1)] 1)) = [''001_a'', ''002_b'', ''003_x''] \<and>
   fst (Status (example_state [] [(''001_a'', 1)] 1)) ! 0 = Ran ''001_a'' 1 \<and>
   fst (Status (example_state [] [(''001_a'', 1)] 1)) ! 1 = Pending ''002_b'' \<and>
   fst (Status (example_state [] [(''001_a'', 1)] 1)) ! 2 = Pending ''003_x''"
proof -
  have h: "migrations (example_state [] [(''001_a'', 1)] 1) = migrations (NewMigrator example_migrations [])"
    by (simp add: example_defs)
  have n: "map Name (migrations (example_state [] [(''001_a'', 1)] 1)) = [''001_a'', ''002_b'', ''003_x'']"
    by (simp add: example_defs)
  have l: "length (migrations (example_state [] [(''001_a'', 1)] 1)) = 3"
    by (simp add: example_defs)
  have m0: "map_of (History (db (example_state [] [(''001_a'', 1)] 1)))
              (Name (migrations (example_state [] [(''001_a'', 1)] 1) ! 0)) = Some 1"
    and m1: "map_of (History (db (example_state [] [(''001_a'', 1)] 1)))
              (Name (migrations (example_state [] [(''001_a'', 1)] 1) ! 1)) = None"
    and m2: "map_of (History (db (example_state [] [(''001_a'', 1)] 1)))
              (Name (migrations (example_state [] [(''001_a'', 1)] 1) ! 2)) = None"
    and n0: "Name (migrations (example_state [] [(''001_a'', 1)] 1) ! 0) = ''001_a''"
    and n1: "Name (migrations (example_state [] [(''001_a'', 1)] 1) ! 1) = ''002_b''"
    and n2: "Name (migrations (example_state [] [(''001_a'', 1)] 1) ! 2) = ''003_x''"
    by (simp_all add: example_defs)
  from Status_classifies [OF h] l m0 m1 m2 n0 n1 n2 h n show ?thesis by simp
qed

subsection \<open>C8: what a failed Rollback has erased\<close>

text \<open>
  Claim C8. In the situation of C5 (the \<open>Down\<close> calls of \<open>as\<close> succeed, the one of
  \<open>f\<close> fails), every migration of \<open>as\<close> had an entry under the batch being rolled
  back, and has none in the ledger that \<open>Rollback\<close> returns with the error: an entry
  is erased inside the loop, right after its \<open>Down\<close> call succeeds, not once the whole
  batch has been reverted.
\<close>

theorem Rollback_failure_erased:
  assumes "GetLastBatch (db m) \<noteq> 0" and "to_revert m = as @ f # rest"
    and "Downs_succeed as (schema m)" and "Down f (after_Downs as (schema m)) = (Some c, s')"
  shows "\<exists>e calls m'.
           Rollback m = (Some e, calls, m') \<and>
           (\<forall>mig \<in> set as.
              (Name mig, GetLastBatch (db m)) \<in> set (History (db m)) \<and>
              Name mig \<notin> fst ` set (History (db m')) \<and>
              map_of (History (db m')) (Name mig) = None)"
proof -
  define m' where "m' = m\<lparr>schema := s',
        db := \<lparr>History = erase_all as (History (db m)), NextBatch = NextBatch (db m)\<rparr>\<rparr>"
  have rb: "Rollback m = (Some (RollbackError (Name f) c),
              map (\<lambda>mig. DownCall (Name mig)) (as @ [f]), m')"
    using Rollback_fail [OF assms] by (simp add: m'_def)
  have "(Name mig, GetLastBatch (db m)) \<in> set (History (db m)) \<and>
        Name mig \<notin> fst ` set (History (db m')) \<and> map_of (History (db m')) (Name mig) = None"
    if "mig \<in> set as" for mig
  proof -
    have "mig \<in> set (to_revert m)" using that assms(2) by auto
    then have "(Name mig, GetLastBatch (db m)) \<in> set (History (db m))" by (rule to_revert_entry)
    then show ?thesis using that by (simp add: m'_def keys_erase_all map_of_erase_all)
  qed
  then show ?thesis using rb by blast
qed

theorem Rollback_failure_erased_witness:
  "GetLastBatch (db (example_state [DownCall ''002_b''] [(''001_a'', 1), (''002_b'', 1), (''003_x'', 1)] 2)) \<noteq> 0 \<and>
   to_revert (example_state [DownCall ''002_b''] [(''001_a'', 1), (''002_b'', 1), (''003_x'', 1)] 2) =
     [example_migration ''003_x''] @ example_migration ''002_b'' # [example_migration ''001_a''] \<and>
   Downs_succeed [example_migration ''003_x''] (schema (example_state [DownCall ''002_b''] [(''001_a'', 1), (''002_b'', 1), (''003_x'', 1)] 2)) \<and>
   Down (example_migration ''002_b'')
      (after_Downs [example_migration ''003_x''] (schema (example_state [DownCall ''002_b''] [(''001_a'', 1), (''002_b'', 1), (''003_x'', 1)] 2))) =
     (Some ''no such table'', [DownCall ''002_b'']) \<and>
   Rollback (example_state [DownCall ''002_b''] [(''001_a'', 1), (''002_b'', 1), (''003_x'', 1)] 2) =
     (Some (RollbackError ''002_b'' ''no such table''), [DownCall ''003_x'', DownCall ''002_b''],
      example_state [DownCall ''002_b''] [(''001_a'', 1), (''002_b'', 1)] 2) \<and>
   map_of (History (db (example_state [DownCall ''002_b''] [(''001_a'', 1), (''002_b'', 1)] 2))) ''003_x''
     = None"
proof -
  have h1: "GetLastBatch (db (example_state [DownCall ''002_b''] [(''001_a'', 1), (''002_b'', 1), (''003_x'', 1)] 2)) \<noteq> 0"
    by (simp add: example_defs)
  have h2: "to_revert (example_state [DownCall ''002_b''] [(''001_a'', 1), (''002_b'', 1), (''003_x'', 1)] 2) =
     [example_migration ''003_x''] @ example_migration ''002_b'' # [example_migration ''001_a'']"
    by (simp add: example_defs)
  have h3: "Downs_succeed [example_migration ''003_x''] (schema (example_state [DownCall ''002_b''] [(''001_a'', 1), (''002_b'', 1), (''003_x'', 1)] 2))"
    by (simp add: example_defs)
  have h4: "Down (example_migration ''002_b'')
      (after_Downs [example_migration ''003_x''] (schema (example_state [DownCall ''002_b''] [(''001_a'', 1), (''002_b'', 1), (''003_x'', 1)] 2))) =
     (Some ''no such table'', [DownCall ''002_b''])"
    by (simp add: example_defs)
  have e: "Rollback (example_state [DownCall ''002_b''] [(''001_a'', 1), (''002_b'', 1), (''003_x'', 1)] 2) =
     (Some (RollbackError ''002_b'' ''no such table''), [DownCall ''003_x'', DownCall ''002_b''],
      example_state [DownCall ''002_b''] [(''001_a'', 1), (''002_b'', 1)] 2)"
    by (simp add: example_defs)
  from Rollback_failure_erased [OF h1 h2 h3 h4]
  obtain m' where "Rollback (example_state [DownCall ''002_b''] [(''001_a'', 1), (''002_b'', 1), (''003_x'', 1)] 2) = (Some (RollbackError ''002_b'' ''no such table''),
        [DownCall ''003_x'', DownCall ''002_b''], m')"
    and "\<forall>mig \<in> set [example_migration ''003_x'']. map_of (History (db m')) (Name mig) = None"
    using e by auto
  then have "map_of (History (db (example_state [DownCall ''002_b''] [(''001_a'', 1), (''002_b'', 1)] 2)))
      ''003_x'' = None"
    using e by (simp add: example_migration_def)
  then show ?thesis using h1 h2 h3 h4 e by simp
qed

subsection \<open>C9: a highest batch held by unregistered names\<close>

text \<open>
  Claim C9. If no registered migration has an entry with the highest batch number of
  the ledger (the entries of that batch are under names that are not registered),
  \<open>Rollback\<close> makes no \<open>Down\<close> call, returns success and leaves the migrator as it
  was: nothing is erased and the counter is not reset. So the next \<open>Rollback\<close> is in
  the same case, and so is every later one: after any number of \<open>Rollback\<close> calls the
  migrator is still as it was. Nor does \<open>Migrate\<close> help: when the ledger is not
  empty (and its names are distinct, as those of a Go map are), every entry of a batch
  below the highest is still there after any sequence of \<open>Migrate\<close> and \<open>Rollback\<close>
  calls, so that no earlier batch is ever rolled back.
\<close>

theorem Rollback_orphan_batch:
  assumes "\<forall>mig \<in> set (migrations m). (Name mig, GetLastBatch (db m)) \<notin> set (History (db m))"
  shows "Rollback m = (None, [], m) \<and>
         (\<forall>k. ((\<lambda>x. snd (snd (Rollback x))) ^^ k) m = m) \<and>
         (GetLastBatch (db m) \<noteq> 0 \<and> distinct (map fst (History (db m))) \<longrightarrow>
            (\<forall>m'. steps m m' \<longrightarrow>
               (\<forall>(n, b) \<in> set (History (db m)).
                  b < GetLastBatch (db m) \<longrightarrow> (n, b) \<in> set (History (db m')))))"
proof -
  have one: "Rollback m = (None, [], m)" by (rule Rollback_orphans_once [OF assms])
  have "((\<lambda>x. snd (snd (Rollback x))) ^^ k) m = m" for k
    by (induction k) (simp_all add: one)
  moreover have "(n, b) \<in> set (History (db m'))"
    if "GetLastBatch (db m) \<noteq> 0" "distinct (map fst (History (db m)))" "steps m m'"
      "(n, b) \<in> set (History (db m))" "b < GetLastBatch (db m)" for m' n b
    by (rule lower_batches_stay [OF assms that])
  ultimately show ?thesis using one by blast
qed

theorem Rollback_orphan_batch_witness:
  "list_all (\<lambda>mig. (Name mig, GetLastBatch (db (example_state [] [(''001_a'', 1), (''000_gone'', 2)] 3))) \<notin> set (History (db (example_state [] [(''001_a'', 1), (''000_gone'', 2)] 3))))
     (migrations (example_state [] [(''001_a'', 1), (''000_gone'', 2)] 3)) \<and>
   GetLastBatch (db (example_state [] [(''001_a'', 1), (''000_gone'', 2)] 3)) = 2 \<and>
   distinct (map fst (History (db (example_state [] [(''001_a'', 1), (''000_gone'', 2)] 3)))) \<and>
   Rollback (example_state [] [(''001_a'', 1), (''000_gone'', 2)] 3) = (None, [], example_state [] [(''001_a'', 1), (''000_gone'', 2)] 3) \<and>
   ((\<lambda>x. snd (snd (Rollback x))) ^^ 5) (example_state [] [(''001_a'', 1), (''000_gone'', 2)] 3) = example_state [] [(''001_a'', 1), (''000_gone'', 2)] 3 \<and>
   steps (example_state [] [(''001_a'', 1), (''000_gone'', 2)] 3) (example_state [] [(''001_a'', 1), (''000_gone'', 2), (''002_b'', 3), (''003_x'', 3)] 4) \<and>
   (''001_a'', 1) \<in> set (History (db (example_state [] [(''001_a'', 1), (''000_gone'', 2), (''002_b'', 3), (''003_x'', 3)] 4)))"
proof -
  have h: "\<forall>mig \<in> set (migrations (example_state [] [(''001_a'', 1), (''000_gone'', 2)] 3)).
             (Name mig, GetLastBatch (db (example_state [] [(''001_a'', 1), (''000_gone'', 2)] 3))) \<notin> set (History (db (example_state [] [(''001_a'', 1), (''000_gone'', 2)] 3)))"
    by (simp add: example_defs)
  have g: "GetLastBatch (db (example_state [] [(''001_a'', 1), (''000_gone'', 2)] 3)) = 2"
    and d: "distinct (map fst (History (db (example_state [] [(''001_a'', 1), (''000_gone'', 2)] 3))))"
    and e: "(''001_a'', 1) \<in> set (History (db (example_state [] [(''001_a'', 1), (''000_gone'', 2)] 3)))"
    by (simp_all add: example_defs)
  have "Migrate (example_state [] [(''001_a'', 1), (''000_gone'', 2)] 3) = (None, [UpCall ''002_b'', UpCall ''003_x''], (example_state [] [(''001_a'', 1), (''000_gone'', 2), (''002_b'', 3), (''003_x'', 3)] 4))"
    by (simp add: example_defs)
  then have st: "steps (example_state [] [(''001_a'', 1), (''000_gone'', 2)] 3) (example_state [] [(''001_a'', 1), (''000_gone'', 2), (''002_b'', 3), (''003_x'', 3)] 4)"
    by (rule steps.migrate [OF steps.start])
  from Rollback_orphan_batch [OF h] g d st e
  have "(''001_a'', 1) \<in> set (History (db (example_state [] [(''001_a'', 1), (''000_gone'', 2), (''002_b'', 3), (''003_x'', 3)] 4)))"
    by fastforce
  then show ?thesis using Rollback_orphan_batch [OF h] h g d st by (simp add: list_all_iff)
qed

subsection \<open>C10: the bounds on batch numbers\<close>

text \<open>
  Claim C10. In every state reached from a freshly built migrator by any sequence of
  \<open>Migrate\<close> and \<open>Rollback\<close> calls, whichever of their executor calls succeed or
  fail, the counter \<open>NextBatch\<close> is at least 1 and every batch number recorded in the
  ledger lies between 1 and \<open>NextBatch\<close>, both included.
\<close>

theorem batch_numbers_bounded:
  assumes "steps (NewMigrator migs s) m"
  shows "1 \<le> NextBatch (db m) \<and>
         (\<forall>(n, b) \<in> set (History (db m)). 1 \<le> b \<and> b \<le> NextBatch (db m))"
proof -
  have "bounded (db m)" using assms
  proof (induction rule: steps.induct)
    case start
    show ?case by (simp add: bounded_def NewMigrator_def NewSimulatedDB_def)
  next
    case (migrate m r calls m')
    then show ?case using bounded_Migrate by blast
  next
    case (rollback m r calls m')
    then show ?case using bounded_Rollback by blast
  next
    case (executor m s)
    then show ?case by simp
  qed
  then show ?thesis by (simp add: bounded_def)
qed

theorem batch_numbers_bounded_witness:
  "steps (NewMigrator example_migrations [UpCall ''002_b''])
     (example_state [UpCall ''002_b''] [(''001_a'', 1)] 1) \<and>
   1 \<le> NextBatch (db (example_state [UpCall ''002_b''] [(''001_a'', 1)] 1)) \<and>
   list_all (\<lambda>(n, b). 1 \<le> b \<and> b \<le> NextBatch (db (example_state [UpCall ''002_b''] [(''001_a'', 1)] 1)))
     (History (db (example_state [UpCall ''002_b''] [(''001_a'', 1)] 1)))"
  using batch_numbers_bounded [OF example_steps_broken] example_steps_broken
  by (simp add: list_all_iff)

end
